theory Spec2Isabelle
  imports Main
begin


section \<open>The DOCX inspector: \<open>scripts/inspect-docx.py\<close>\<close>

text \<open>
  A shallow embedding of the comparison command of \<open>scripts/inspect-docx.py\<close> and of the
  helpers it calls. A Python \<open>str\<close> is a \<open>string\<close>; a character of the model is a code
  point below 256, so the statements below range over documents whose text and attribute
  values stay in that range.
\<close>

subsection \<open>Python's string methods\<close>

text \<open>\<open>str.isspace\<close> on one character, for the code points below 256.\<close>

definition isspace :: "char \<Rightarrow> bool" where
  "isspace c =
     (let n = (of_char c :: nat)
      in (9 \<le> n \<and> n \<le> 13) \<or> (28 \<le> n \<and> n \<le> 32) \<or> n = 133 \<or> n = 160)"

text \<open>\<open>s.strip()\<close>: leading and trailing whitespace removed.\<close>

definition strip :: "string \<Rightarrow> string" where
  "strip s = rev (dropWhile isspace (rev (dropWhile isspace s)))"

text \<open>\<open>s.startswith(p)\<close>.\<close>

definition startswith :: "string \<Rightarrow> string \<Rightarrow> bool" where
  "startswith s p = (take (length p) s = p)"

text \<open>\<open>sub in s\<close> on strings: \<open>sub\<close> occurs in \<open>s\<close> as a contiguous run.\<close>

fun contains :: "string \<Rightarrow> string \<Rightarrow> bool" where
  "contains sub [] = (sub = [])"
| "contains sub (c # cs) = (startswith (c # cs) sub \<or> contains sub cs)"

text \<open>\<open>sep.join(xs)\<close>.\<close>

fun join :: "string \<Rightarrow> string list \<Rightarrow> string" where
  "join sep [] = []"
| "join sep [x] = x"
| "join sep (x # y # ys) = x @ sep @ join sep (y # ys)"

subsection \<open>The element tree\<close>

text \<open>
  An lxml element: its tag (in Clark notation, \<open>{namespace}local\<close>), its attributes, its
  text (\<open>None\<close> when the element has none) and its children in document order. Comments
  and processing instructions carry no tag a search can name and are left out.
\<close>

datatype xml =
  Element (tag: string) (attrib: "(string \<times> string) list") (etext: "string option")
    (children: "xml list")

definition W_NS :: string where
  "W_NS = ''http://schemas.openxmlformats.org/wordprocessingml/2006/main''"

text \<open>The tag \<open>f"{{{W_NS}}}name"\<close>.\<close>

definition wtag :: "string \<Rightarrow> string" where
  "wtag name = ''{'' @ W_NS @ ''}'' @ name"

text \<open>\<open>e.get(key)\<close> and \<open>e.get(key, default)\<close>.\<close>

definition el_get :: "xml \<Rightarrow> string \<Rightarrow> string option" where
  "el_get e key = map_of (attrib e) key"

definition el_get_default :: "xml \<Rightarrow> string \<Rightarrow> string \<Rightarrow> string" where
  "el_get_default e key dflt = (case el_get e key of None \<Rightarrow> dflt | Some v \<Rightarrow> v)"

text \<open>\<open>e.iter()\<close>: the element and all its descendants, in document order.\<close>

fun iter_all :: "xml \<Rightarrow> xml list" where
  "iter_all (Element t a x cs) = Element t a x cs # concat (map iter_all cs)"

text \<open>\<open>e.iter(t)\<close>: those of them with tag \<open>t\<close>.\<close>

definition el_iter :: "string \<Rightarrow> xml \<Rightarrow> xml list" where
  "el_iter t e = filter (\<lambda>x. tag x = t) (iter_all e)"

text \<open>
  The same walk, each element paired with its parent (\<open>e.getparent()\<close>), which is
  \<open>None\<close> for the root.
\<close>

fun iter_parent :: "xml option \<Rightarrow> xml \<Rightarrow> (xml option \<times> xml) list" where
  "iter_parent p (Element t a x cs) =
     (p, Element t a x cs) # concat (map (iter_parent (Some (Element t a x cs))) cs)"

text \<open>\<open>e.findall(t)\<close>: the children with tag \<open>t\<close>; \<open>e.find(t)\<close>: the first of them.\<close>

definition el_findall :: "string \<Rightarrow> xml \<Rightarrow> xml list" where
  "el_findall t e = filter (\<lambda>c. tag c = t) (children e)"

definition first_opt :: "'a list \<Rightarrow> 'a option" where
  "first_opt xs = (case xs of [] \<Rightarrow> None | x # _ \<Rightarrow> Some x)"

definition el_find :: "string \<Rightarrow> xml \<Rightarrow> xml option" where
  "el_find t e = first_opt (el_findall t e)"

text \<open>\<open>e.find("a/b")\<close>: the first \<open>b\<close> child of an \<open>a\<close> child.\<close>

definition el_find_path :: "string \<Rightarrow> string \<Rightarrow> xml \<Rightarrow> xml option" where
  "el_find_path a b e = first_opt (concat (map (el_findall b) (el_findall a e)))"

text \<open>\<open>e.findall(".//t")\<close>: the proper descendants with tag \<open>t\<close>, in document order.\<close>

definition el_findall_desc :: "string \<Rightarrow> xml \<Rightarrow> xml list" where
  "el_findall_desc t e = filter (\<lambda>x. tag x = t) (concat (map iter_all (children e)))"

subsection \<open>The archive\<close>

text \<open>
  A \<open>.docx\<close> file, as far as the inspector reads it: the part \<open>word/document.xml\<close> and
  the part \<open>word/footnotes.xml\<close>, each absent from the archive, present but not
  well-formed, or parsed.
\<close>

datatype part = Absent | Malformed | Parsed xml

record docx =
  document_xml :: part
  footnotes_xml :: part

text \<open>
  What the code can raise: \<open>ReadError\<close> stands for the \<open>KeyError\<close> or the
  \<open>XMLSyntaxError\<close> of \<open>read_docx_xml\<close>, \<open>ValueError\<close> for that of \<open>int\<close>.
\<close>

datatype error = ReadError | ValueError

definition bind_e :: "'e + 'a \<Rightarrow> ('a \<Rightarrow> 'e + 'b) \<Rightarrow> 'e + 'b" where
  "bind_e m f = (case m of Inl e \<Rightarrow> Inl e | Inr x \<Rightarrow> f x)"

text \<open>A loop whose body can raise: the first exception ends it.\<close>

fun mapM_e :: "('a \<Rightarrow> 'e + 'b) \<Rightarrow> 'a list \<Rightarrow> 'e + 'b list" where
  "mapM_e f [] = Inr []"
| "mapM_e f (x # xs) = bind_e (f x) (\<lambda>y. bind_e (mapM_e f xs) (\<lambda>ys. Inr (y # ys)))"

definition read_docx_xml :: "docx \<Rightarrow> error + xml" where
  "read_docx_xml path = (case document_xml path of Parsed root \<Rightarrow> Inr root | _ \<Rightarrow> Inl ReadError)"

subsection \<open>Paragraphs and commands\<close>

record para =
  p_i :: nat
  p_style :: "string option"
  p_text :: string
  p_runs :: "string list"
  p_tbl :: bool

text \<open>The texts of the runs of one paragraph: the inner loop of \<open>extract_paras\<close>.\<close>

definition run_texts :: "xml \<Rightarrow> string list" where
  "run_texts para =
     concat (map (\<lambda>r. case el_find (wtag ''t'') r of
                         None \<Rightarrow> []
                       | Some t \<Rightarrow> (case etext t of
                                      None \<Rightarrow> []
                                    | Some s \<Rightarrow> if s \<noteq> [] then [s] else []))
                 (el_iter (wtag ''r'') para))"

definition extract_paras :: "docx \<Rightarrow> error + para list" where
  "extract_paras path =
     bind_e (read_docx_xml path) (\<lambda>root.
       Inr (map (\<lambda>(i, (parent, para)).
                  \<lparr> p_i = i,
                    p_style = (case el_find_path (wtag ''pPr'') (wtag ''pStyle'') para of
                                 None \<Rightarrow> None
                               | Some style_el \<Rightarrow> el_get style_el (wtag ''val'')),
                    p_text = concat (run_texts para),
                    p_runs = run_texts para,
                    p_tbl = (case parent of
                               None \<Rightarrow> False
                             | Some q \<Rightarrow> tag q = wtag ''tc'') \<rparr>)
                (enumerate 0 (filter (\<lambda>(parent, e). tag e = wtag ''p'')
                                (iter_parent None root)))))"

text \<open>
  \<open>pat.finditer(text)\<close> for \<open>pat = \{([^}]+)\}\<close>, as the list of the groups \<open>m.group(1)\<close>:
  the matches from left to right, without overlap. A match starts at a \<open>{\<close> that is
  followed by at least one character other than \<open>}\<close> and then, somewhere, by a \<open>}\<close>;
  its group is what stands between that \<open>{\<close> and the first \<open>}\<close> after it, and the scan
  goes on behind that \<open>}\<close>. Where no match starts, the scan moves one character on.
\<close>

function finditer :: "string \<Rightarrow> string list" where
  "finditer [] = []"
| "finditer (c # cs) =
     (if c = CHR ''{''
         \<and> takeWhile (\<lambda>x. x \<noteq> CHR ''}'') cs \<noteq> []
         \<and> dropWhile (\<lambda>x. x \<noteq> CHR ''}'') cs \<noteq> []
      then takeWhile (\<lambda>x. x \<noteq> CHR ''}'') cs
             # finditer (tl (dropWhile (\<lambda>x. x \<noteq> CHR ''}'') cs))
      else finditer cs)"
  by pat_completeness auto
termination
proof (relation "measure length")
  fix c :: char and cs :: string
  assume "c = CHR ''{'' \<and> takeWhile (\<lambda>x. x \<noteq> CHR ''}'') cs \<noteq> []
            \<and> dropWhile (\<lambda>x. x \<noteq> CHR ''}'') cs \<noteq> []"
  have "length (dropWhile (\<lambda>x. x \<noteq> CHR ''}'') cs) \<le> length cs"
    by (rule length_dropWhile_le)
  then have "length (tl (dropWhile (\<lambda>x. x \<noteq> CHR ''}'') cs)) \<le> length cs"
    by simp
  then show "(tl (dropWhile (\<lambda>x. x \<noteq> CHR ''}'') cs), c # cs) \<in> measure length"
    by simp
qed simp_all

record command =
  c_para :: nat
  c_tbl :: bool
  c_raw :: string
  c_type :: string

text \<open>The \<open>if\<close>/\<open>elif\<close> chain of \<open>find_commands\<close>, on the stripped group.\<close>

definition command_type :: "string \<Rightarrow> string" where
  "command_type raw =
     (if startswith raw ''FOR '' then ''FOR''
      else if startswith raw ''END-FOR'' then ''END-FOR''
      else if startswith raw ''IF '' then ''IF''
      else if raw = ''END-IF'' then ''END-IF''
      else if startswith raw ''INS '' then ''INS''
      else ''field'')"

definition find_commands :: "docx \<Rightarrow> error + command list" where
  "find_commands path =
     bind_e (extract_paras path) (\<lambda>paras.
       Inr (concat (map (\<lambda>p. map (\<lambda>g. \<lparr> c_para = p_i p, c_tbl = p_tbl p,
                                          c_raw = strip g, c_type = command_type (strip g) \<rparr>)
                                  (finditer (p_text p)))
                        paras)))"

subsection \<open>Python's \<open>repr\<close> of a tuple of strings\<close>

text \<open>
  The loop-expansion check keys its groups by \<open>str(tuple(grid))\<close>. \<open>repr\<close> of a \<open>str\<close>
  puts it in single quotes, or in double quotes when it holds a single quote and no
  double quote; it escapes the quote in use and the backslash with a backslash, writes
  tab, line feed and carriage return as \<open>\t\<close>, \<open>\n\<close>, \<open>\r\<close>, and every other
  character that is not printable as \<open>\x\<close> and two hexadecimal digits.
\<close>

definition printable :: "char \<Rightarrow> bool" where
  "printable c =
     (let n = (of_char c :: nat) in (32 \<le> n \<and> n < 127) \<or> (161 \<le> n \<and> n \<noteq> 173))"

definition hexdigit :: "nat \<Rightarrow> char" where
  "hexdigit n = ''0123456789abcdef'' ! n"

definition hex2 :: "char \<Rightarrow> string" where
  "hex2 c = [hexdigit ((of_char c :: nat) div 16), hexdigit ((of_char c :: nat) mod 16)]"

definition repr_char :: "char \<Rightarrow> char \<Rightarrow> string" where
  "repr_char quote c =
     (if c = quote \<or> c = CHR 0x5C then [CHR 0x5C, c]
      else if c = CHR 0x09 then [CHR 0x5C, CHR ''t'']
      else if c = CHR 0x0A then [CHR 0x5C, CHR ''n'']
      else if c = CHR 0x0D then [CHR 0x5C, CHR ''r'']
      else if \<not> printable c then [CHR 0x5C, CHR ''x''] @ hex2 c
      else [c])"

definition repr_quote :: "string \<Rightarrow> char" where
  "repr_quote s = (if CHR 0x27 \<in> set s \<and> CHR 0x22 \<notin> set s then CHR 0x22 else CHR 0x27)"

definition py_repr :: "string \<Rightarrow> string" where
  "py_repr s = repr_quote s # concat (map (repr_char (repr_quote s)) s) @ [repr_quote s]"

text \<open>\<open>str(tuple(xs))\<close>: a tuple of one element is written with a trailing comma.\<close>

definition str_tuple :: "string list \<Rightarrow> string" where
  "str_tuple xs =
     ''('' @ (case xs of [x] \<Rightarrow> py_repr x @ '','' | _ \<Rightarrow> join '', '' (map py_repr xs)) @ '')''"

subsection \<open>Insertion-ordered dictionaries\<close>

text \<open>
  A \<open>dict\<close> that the code fills and then iterates is a list of pairs in insertion
  order. \<open>dict_upd k f d\<close> stores under \<open>k\<close> what \<open>f\<close> makes of the value found there
  (\<open>None\<close> when there is none); a new key goes to the end.
\<close>

fun dict_upd :: "'k \<Rightarrow> ('v option \<Rightarrow> 'v) \<Rightarrow> ('k \<times> 'v) list \<Rightarrow> ('k \<times> 'v) list" where
  "dict_upd k f [] = [(k, f None)]"
| "dict_upd k f ((k', v) # kvs) =
     (if k' = k then (k', f (Some v)) # kvs else (k', v) # dict_upd k f kvs)"

subsection \<open>Comparison helpers\<close>

definition table_grid :: "xml \<Rightarrow> string list" where
  "table_grid tbl =
     (case el_find (wtag ''tblGrid'') tbl of
        None \<Rightarrow> []
      | Some grid \<Rightarrow> map (\<lambda>c. el_get_default c (wtag ''w'') ''?'')
                        (el_findall (wtag ''gridCol'') grid))"

definition table_width :: "xml \<Rightarrow> string \<times> string" where
  "table_width tbl =
     (case el_find (wtag ''tblPr'') tbl of
        None \<Rightarrow> (''?'', ''?'')
      | Some tbl_pr \<Rightarrow>
          (case el_find (wtag ''tblW'') tbl_pr of
             None \<Rightarrow> (''?'', ''?'')
           | Some tw \<Rightarrow> (el_get_default tw (wtag ''w'') ''?'',
                         el_get_default tw (wtag ''type'') ''?'')))"

record cell_info =
  ci_w :: string
  ci_type :: string
  ci_span :: int

text \<open>
  The body of the loop of \<open>_row_cell_widths\<close>, for one cell. \<open>int\<close> is Python's and not
  this program's: \<open>to_int s\<close> is \<open>Some n\<close> where \<open>int(s)\<close> returns \<open>n\<close> and \<open>None\<close> where
  it raises \<open>ValueError\<close>, and every function that reaches it takes it as its first
  argument.
\<close>

definition cell_widths :: "(string \<Rightarrow> int option) \<Rightarrow> xml \<Rightarrow> error + cell_info" where
  "cell_widths to_int cell =
     (case el_find (wtag ''tcPr'') cell of
        None \<Rightarrow> Inr \<lparr> ci_w = ''?'', ci_type = ''?'', ci_span = 1 \<rparr>
      | Some tc_pr \<Rightarrow>
          (let (cw, ct) = (case el_find (wtag ''tcW'') tc_pr of
                            None \<Rightarrow> (''?'', ''?'')
                          | Some tc_w \<Rightarrow> (el_get_default tc_w (wtag ''w'') ''?'',
                                          el_get_default tc_w (wtag ''type'') ''?''))
           in case el_find (wtag ''gridSpan'') tc_pr of
                None \<Rightarrow> Inr \<lparr> ci_w = cw, ci_type = ct, ci_span = 1 \<rparr>
              | Some gs \<Rightarrow>
                  (case to_int (el_get_default gs (wtag ''val'') ''1'') of
                     None \<Rightarrow> Inl ValueError
                   | Some n \<Rightarrow> Inr \<lparr> ci_w = cw, ci_type = ct, ci_span = n \<rparr>)))"

definition row_cell_widths :: "(string \<Rightarrow> int option) \<Rightarrow> xml \<Rightarrow> error + cell_info list" where
  "row_cell_widths to_int row = mapM_e (cell_widths to_int) (el_findall (wtag ''tc'') row)"

definition cell_text :: "xml \<Rightarrow> string" where
  "cell_text cell =
     strip (concat (map (\<lambda>t. case etext t of None \<Rightarrow> [] | Some s \<Rightarrow> s)
                        (el_findall_desc (wtag ''t'') cell)))"

definition footnote_refs :: "xml \<Rightarrow> string list" where
  "footnote_refs root =
     map (\<lambda>r. el_get_default r (wtag ''id'') ''?'')
         (el_findall_desc (wtag ''footnoteReference'') root)"

definition table_label :: "xml \<Rightarrow> string" where
  "table_label tbl =
     (case el_findall (wtag ''tr'') tbl of
        [] \<Rightarrow> ''(empty table)''
      | row0 # _ \<Rightarrow>
          (let cells = el_findall (wtag ''tc'') row0;
               texts = map (\<lambda>c. take 30 (cell_text c)) (take 3 cells);
               label = join '' | '' (filter (\<lambda>t. t \<noteq> []) texts)
           in if length label > 60 then take 60 label @ ''...'' else label))"

text \<open>
  The loop returns at the first table whose label is the template's; \<open>tpl_grid\<close> is
  passed and not read.
\<close>

definition find_table_in_output :: "xml list \<Rightarrow> string \<Rightarrow> string list \<Rightarrow> nat option" where
  "find_table_in_output out_tables tpl_label tpl_grid =
     map_option fst (List.find (\<lambda>(i, tbl). table_label tbl = tpl_label)
                               (enumerate 0 out_tables))"

subsection \<open>Issues and the report\<close>

text \<open>
  The code appends formatted messages to one list. An issue of the model is the kind of
  message with the values the message is formatted from:
  \<^item> \<open>ResidualCommand raw\<close>: ``Residual loop/control command: {raw}'';
  \<^item> \<open>UnresolvedField raw\<close>: ``Unresolved template field: {raw}'';
  \<^item> \<open>FootnoteDuplicate fid count\<close>: ``Footnote ref id=fid appears count x'';
  \<^item> \<open>FootnoteDangling fid\<close>: ``Footnote ref id=fid has no definition'';
  \<^item> \<open>GridMismatch ti label tpl out\<close>: ``T[ti] 'label': grid mismatch'';
  \<^item> \<open>TblWMismatch ti label tpl out\<close>: ``T[ti] 'label': tblW mismatch'';
  \<^item> \<open>CellCount ti ri tpl out\<close>: ``T[ti] R ri: cell count'';
  \<^item> \<open>WidthMismatch ti ri ci tpl out\<close>: ``T[ti] R ri C ci: width'';
  \<^item> \<open>GridSpanMismatch ti ri ci tpl out\<close>: ``T[ti] R ri C ci: gridSpan'';
  \<^item> \<open>FamilyGridDiffers idx expected got\<close>: ``FOR-expanded T[idx]: grid differs'';
  \<^item> \<open>FamilyCellCount idx ri cur ref_idx ref\<close>:
    ``FOR-expanded T[idx] R ri: cell count cur vs T[ref_idx] (ref)'';
  \<^item> \<open>SpanAnomaly i ri total_span grid_cols n cell_texts\<close>:
    ``T[i] R ri: span=total_span vs grid=grid_cols''.
\<close>

datatype issue =
    ResidualCommand string
  | UnresolvedField string
  | FootnoteDuplicate string nat
  | FootnoteDangling string
  | GridMismatch nat string "string list" "string list"
  | TblWMismatch nat string "string \<times> string" "string \<times> string"
  | CellCount nat nat nat nat
  | WidthMismatch nat nat nat "string \<times> string" "string \<times> string"
  | GridSpanMismatch nat nat nat int int
  | FamilyGridDiffers nat "string list" "string list"
  | FamilyCellCount nat nat nat nat nat
  | SpanAnomaly nat nat int nat nat "string list"

text \<open>
  What \<open>cmd_compare\<close> prints: the three pairs of counts of the header, the number of
  matched template tables, one line per loop-expansion group (its size, the first 60
  characters of its key, the first 40 of the first member's label), the number of rows
  with a span anomaly, and the issues.
\<close>

record report =
  r_tables :: "nat \<times> nat"
  r_paragraphs :: "nat \<times> nat"
  r_commands :: "nat \<times> nat"
  r_matched :: nat
  r_instances :: "(nat \<times> string \<times> string) list"
  r_row_issues_count :: nat
  r_issues :: "issue list"

subsection \<open>The sections of \<open>cmd_compare\<close>\<close>

text \<open>Section 2, residual commands.\<close>

definition control_types :: "string list" where
  "control_types = [''FOR'', ''END-FOR'', ''IF'', ''END-IF'', ''INS'']"

definition residual_commands :: "command list \<Rightarrow> issue list" where
  "residual_commands out_cmds =
     map (\<lambda>c. ResidualCommand (c_raw c))
         (filter (\<lambda>c. c_type c \<in> set control_types) out_cmds)
     @ map (\<lambda>c. UnresolvedField (c_raw c))
           (filter (\<lambda>c. c_type c = ''field'' \<and> startswith (c_raw c) ''$'') out_cmds)"

text \<open>
  Section 3, footnote consistency. The second loop runs over \<open>set(out_fn_refs)\<close>, whose
  order Python does not fix; the model takes the order of \<open>remdups\<close>. A footnotes part
  that is absent or does not parse adds nothing (\<open>except Exception: pass\<close>).
\<close>

definition fn_counts :: "string list \<Rightarrow> (string \<times> nat) list" where
  "fn_counts out_fn_refs =
     foldl (\<lambda>d fid. dict_upd fid (\<lambda>v. (case v of None \<Rightarrow> 0 | Some n \<Rightarrow> n) + 1) d)
           [] out_fn_refs"

definition footnote_consistency :: "xml \<Rightarrow> docx \<Rightarrow> issue list" where
  "footnote_consistency out_root out_path =
     (let out_fn_refs = footnote_refs out_root
      in concat (map (\<lambda>(fid, count). if count > 1 then [FootnoteDuplicate fid count] else [])
                     (fn_counts out_fn_refs))
         @ (case footnotes_xml out_path of
              Parsed fn_xml \<Rightarrow>
                (let fn_defs = map (\<lambda>f. el_get f (wtag ''id''))
                                   (el_findall (wtag ''footnote'') fn_xml)
                 in concat (map (\<lambda>fid. if Some fid \<notin> set fn_defs
                                        then [FootnoteDangling fid] else [])
                                (remdups out_fn_refs)))
            | _ \<Rightarrow> []))"

text \<open>Section 4, table grid and cell width comparison: one cell, one row, one table.\<close>

definition cell_issues :: "nat \<Rightarrow> nat \<Rightarrow> nat \<Rightarrow> cell_info \<Rightarrow> cell_info \<Rightarrow> issue list" where
  "cell_issues ti ri ci tw ow =
     (if ci_w tw \<noteq> ci_w ow \<or> ci_type tw \<noteq> ci_type ow
      then [WidthMismatch ti ri ci (ci_w tw, ci_type tw) (ci_w ow, ci_type ow)] else [])
     @ (if ci_span tw \<noteq> ci_span ow
        then [GridSpanMismatch ti ri ci (ci_span tw) (ci_span ow)] else [])"

definition row_issues ::
  "(string \<Rightarrow> int option) \<Rightarrow> nat \<Rightarrow> nat \<Rightarrow> xml \<Rightarrow> xml \<Rightarrow> error + issue list" where
  "row_issues to_int ti ri tpl_row out_row =
     bind_e (row_cell_widths to_int tpl_row) (\<lambda>tpl_cw.
     bind_e (row_cell_widths to_int out_row) (\<lambda>out_cw.
       Inr (if length tpl_cw \<noteq> length out_cw
            then [CellCount ti ri (length tpl_cw) (length out_cw)]
            else concat (map (\<lambda>ci. cell_issues ti ri ci (tpl_cw ! ci) (out_cw ! ci))
                             [0..<length tpl_cw]))))"

text \<open>
  The body of the loop over the template tables: whether the table was matched, and the
  issues it adds. A \<open>continue\<close> leaves with nothing.
\<close>

definition table_issues ::
  "(string \<Rightarrow> int option) \<Rightarrow> xml list \<Rightarrow> nat \<Rightarrow> xml \<Rightarrow> error + (bool \<times> issue list)" where
  "table_issues to_int out_tables ti tpl_tbl =
     (let tpl_grid = table_grid tpl_tbl;
          tpl_label = table_label tpl_tbl;
          tpl_tw = table_width tpl_tbl
      in if contains ''{FOR'' tpl_label \<or> contains ''{$'' tpl_label then Inr (False, [])
         else case find_table_in_output out_tables tpl_label tpl_grid of
                None \<Rightarrow> Inr (False, [])
              | Some oi \<Rightarrow>
                  (let out_tbl = out_tables ! oi;
                       out_grid = table_grid out_tbl;
                       out_tw = table_width out_tbl;
                       label_short = take 40 tpl_label;
                       tpl_rows = el_findall (wtag ''tr'') tpl_tbl;
                       out_rows = el_findall (wtag ''tr'') out_tbl;
                       max_rows = min (length tpl_rows) (length out_rows)
                   in bind_e (mapM_e (\<lambda>ri. row_issues to_int ti ri (tpl_rows ! ri) (out_rows ! ri))
                                     [0..<max_rows]) (\<lambda>rows.
                        Inr (True,
                             (if tpl_grid \<noteq> out_grid
                              then [GridMismatch ti label_short tpl_grid out_grid] else [])
                             @ (if tpl_tw \<noteq> out_tw
                                then [TblWMismatch ti label_short tpl_tw out_tw] else [])
                             @ concat rows))))"

definition table_grid_comparison ::
  "(string \<Rightarrow> int option) \<Rightarrow> xml list \<Rightarrow> xml list \<Rightarrow> error + (nat \<times> issue list)" where
  "table_grid_comparison to_int tpl_tables out_tables =
     bind_e (mapM_e (\<lambda>(ti, tpl_tbl). table_issues to_int out_tables ti tpl_tbl)
                    (enumerate 0 tpl_tables)) (\<lambda>rs.
       Inr (length (filter fst rs), concat (map snd rs)))"

text \<open>Section 5, the loop expansion check: the groups, and the body of the loop over them.\<close>

definition grid_groups :: "xml list \<Rightarrow> (string \<times> nat list) list" where
  "grid_groups out_tables =
     foldl (\<lambda>d (i, tbl). dict_upd (str_tuple (table_grid tbl))
                                   (\<lambda>v. (case v of None \<Rightarrow> [] | Some l \<Rightarrow> l) @ [i]) d)
           [] (enumerate 0 out_tables)"

definition instance_issues ::
  "(string \<Rightarrow> int option) \<Rightarrow> xml list \<Rightarrow> nat \<Rightarrow> xml list \<Rightarrow> nat \<Rightarrow> error + issue list" where
  "instance_issues to_int out_tables ref_idx ref_rows idx =
     (let rows = el_findall (wtag ''tr'') (out_tables ! idx)
      in if length rows \<noteq> length ref_rows then Inr []
         else bind_e (mapM_e (\<lambda>ri.
                        bind_e (row_cell_widths to_int (ref_rows ! ri)) (\<lambda>ref_cw.
                        bind_e (row_cell_widths to_int (rows ! ri)) (\<lambda>cur_cw.
                          Inr (if length ref_cw \<noteq> length cur_cw
                               then [FamilyCellCount idx ri (length cur_cw) ref_idx
                                       (length ref_cw)]
                               else []))))
                      [0..<length rows]) (\<lambda>xs. Inr (concat xs)))"

definition group_issues ::
  "(string \<Rightarrow> int option) \<Rightarrow> xml list \<Rightarrow> string \<times> nat list
     \<Rightarrow> error + (issue list \<times> (nat \<times> string \<times> string) list)" where
  "group_issues to_int out_tables grp =
     (let key = fst grp; indices = snd grp
      in if length indices \<le> 2 then Inr ([], [])
         else (let grids = map (\<lambda>i. table_grid (out_tables ! i)) indices;
                   first_grid = hd grids;
                   ref_tbl = out_tables ! hd indices;
                   ref_rows = el_findall (wtag ''tr'') ref_tbl
               in bind_e (mapM_e (instance_issues to_int out_tables (hd indices) ref_rows)
                                 (tl indices)) (\<lambda>xs.
                    Inr (concat (map (\<lambda>(idx, g). if g \<noteq> first_grid
                                                  then [FamilyGridDiffers idx first_grid g]
                                                  else [])
                                     (zip indices grids))
                         @ concat xs,
                         [(length indices, take 60 key, take 40 (table_label ref_tbl))]))))"

definition for_loop_expansion ::
  "(string \<Rightarrow> int option) \<Rightarrow> xml list
     \<Rightarrow> error + (issue list \<times> (nat \<times> string \<times> string) list)" where
  "for_loop_expansion to_int out_tables =
     bind_e (mapM_e (group_issues to_int out_tables) (grid_groups out_tables)) (\<lambda>rs.
       Inr (concat (map fst rs), concat (map snd rs)))"

text \<open>Section 6, row cell count anomalies.\<close>

definition span_row_issues ::
  "(string \<Rightarrow> int option) \<Rightarrow> nat \<Rightarrow> nat \<Rightarrow> nat \<Rightarrow> xml \<Rightarrow> error + issue list" where
  "span_row_issues to_int i grid_cols ri row =
     bind_e (row_cell_widths to_int row) (\<lambda>cells.
       (let total_span = sum_list (map ci_span cells)
        in Inr (if total_span \<noteq> int grid_cols
                then [SpanAnomaly i ri total_span grid_cols (length cells)
                        (take 4 (map (\<lambda>c. take 25 (cell_text c))
                                     (el_findall (wtag ''tc'') row)))]
                else [])))"

definition span_table_issues ::
  "(string \<Rightarrow> int option) \<Rightarrow> nat \<Rightarrow> xml \<Rightarrow> error + issue list" where
  "span_table_issues to_int i tbl =
     (let grid_cols = length (table_grid tbl)
      in if grid_cols = 0 then Inr []
         else bind_e (mapM_e (\<lambda>(ri, row). span_row_issues to_int i grid_cols ri row)
                             (enumerate 0 (el_findall (wtag ''tr'') tbl)))
                (\<lambda>xs. Inr (concat xs)))"

definition row_anomalies :: "(string \<Rightarrow> int option) \<Rightarrow> xml list \<Rightarrow> error + issue list" where
  "row_anomalies to_int out_tables =
     bind_e (mapM_e (\<lambda>(i, tbl). span_table_issues to_int i tbl) (enumerate 0 out_tables))
       (\<lambda>xs. Inr (concat xs))"

subsection \<open>The comparison\<close>

definition cmd_compare :: "(string \<Rightarrow> int option) \<Rightarrow> docx \<Rightarrow> docx \<Rightarrow> error + report" where
  "cmd_compare to_int tpl_path out_path =
     bind_e (read_docx_xml tpl_path) (\<lambda>tpl_root.
     bind_e (read_docx_xml out_path) (\<lambda>out_root.
     bind_e (extract_paras tpl_path) (\<lambda>tpl_paras.
     bind_e (extract_paras out_path) (\<lambda>out_paras.
     bind_e (find_commands tpl_path) (\<lambda>tpl_cmds.
     bind_e (find_commands out_path) (\<lambda>out_cmds.
       (let tpl_tables = el_iter (wtag ''tbl'') tpl_root;
            out_tables = el_iter (wtag ''tbl'') out_root
        in bind_e (table_grid_comparison to_int tpl_tables out_tables) (\<lambda>(matched, issues4).
           bind_e (for_loop_expansion to_int out_tables) (\<lambda>(issues5, instances).
           bind_e (row_anomalies to_int out_tables) (\<lambda>issues6.
             Inr \<lparr> r_tables = (length tpl_tables, length out_tables),
                   r_paragraphs = (length tpl_paras, length out_paras),
                   r_commands = (length tpl_cmds, length out_cmds),
                   r_matched = matched,
                   r_instances = instances,
                   r_row_issues_count = length issues6,
                   r_issues = residual_commands out_cmds
                              @ footnote_consistency out_root out_path
                              @ issues4 @ issues5 @ issues6 \<rparr>))))))))))"

subsection \<open>Decimal literals\<close>

text \<open>
  For running the comparison on concrete documents: \<open>int\<close> on the plain decimal
  literals, an optional sign and digits between optional ASCII blanks.
\<close>

definition digit_val :: "char \<Rightarrow> nat option" where
  "digit_val c =
     (if 48 \<le> (of_char c :: nat) \<and> (of_char c :: nat) \<le> 57
      then Some ((of_char c :: nat) - 48) else None)"

fun digits_val :: "nat \<Rightarrow> string \<Rightarrow> nat option" where
  "digits_val acc [] = Some acc"
| "digits_val acc (c # cs) =
     (case digit_val c of None \<Rightarrow> None | Some d \<Rightarrow> digits_val (10 * acc + d) cs)"

definition py_int :: "string \<Rightarrow> int option" where
  "py_int s =
     (let t = rev (dropWhile (\<lambda>c. c = CHR '' '') (rev (dropWhile (\<lambda>c. c = CHR '' '') s)))
      in case t of
           [] \<Rightarrow> None
         | c # cs \<Rightarrow>
             if c = CHR ''-'' then (if cs = [] then None
                                    else map_option (\<lambda>n. - int n) (digits_val 0 cs))
             else if c = CHR ''+'' then (if cs = [] then None
                                         else map_option int (digits_val 0 cs))
             else map_option int (digits_val 0 (c # cs)))"

subsection \<open>Reading an issue\<close>

text \<open>
  The section of \<open>cmd_compare\<close> that appends a kind of issue, and the table, row and cell
  its message names (\<open>T[..]\<close>, \<open>R..\<close>, \<open>C..\<close>).
\<close>

fun issue_section :: "issue \<Rightarrow> nat" where
  "issue_section (ResidualCommand _) = 2"
| "issue_section (UnresolvedField _) = 2"
| "issue_section (FootnoteDuplicate _ _) = 3"
| "issue_section (FootnoteDangling _) = 3"
| "issue_section (GridMismatch _ _ _ _) = 4"
| "issue_section (TblWMismatch _ _ _ _) = 4"
| "issue_section (CellCount _ _ _ _) = 4"
| "issue_section (WidthMismatch _ _ _ _ _) = 4"
| "issue_section (GridSpanMismatch _ _ _ _ _) = 4"
| "issue_section (FamilyGridDiffers _ _ _) = 5"
| "issue_section (FamilyCellCount _ _ _ _ _) = 5"
| "issue_section (SpanAnomaly _ _ _ _ _ _) = 6"

fun issue_table :: "issue \<Rightarrow> nat option" where
  "issue_table (GridMismatch ti _ _ _) = Some ti"
| "issue_table (TblWMismatch ti _ _ _) = Some ti"
| "issue_table (CellCount ti _ _ _) = Some ti"
| "issue_table (WidthMismatch ti _ _ _ _) = Some ti"
| "issue_table (GridSpanMismatch ti _ _ _ _) = Some ti"
| "issue_table (FamilyGridDiffers idx _ _) = Some idx"
| "issue_table (FamilyCellCount idx _ _ _ _) = Some idx"
| "issue_table (SpanAnomaly i _ _ _ _ _) = Some i"
| "issue_table _ = None"

fun issue_row :: "issue \<Rightarrow> nat option" where
  "issue_row (CellCount _ ri _ _) = Some ri"
| "issue_row (WidthMismatch _ ri _ _ _) = Some ri"
| "issue_row (GridSpanMismatch _ ri _ _ _) = Some ri"
| "issue_row (FamilyCellCount _ ri _ _ _) = Some ri"
| "issue_row (SpanAnomaly _ ri _ _ _ _) = Some ri"
| "issue_row _ = None"

fun issue_cell :: "issue \<Rightarrow> nat option" where
  "issue_cell (WidthMismatch _ _ ci _ _) = Some ci"
| "issue_cell (GridSpanMismatch _ _ ci _ _) = Some ci"
| "issue_cell _ = None"

text \<open>The issues of one section that name a table, and those that name a row of it.\<close>

definition at_table :: "nat \<Rightarrow> nat \<Rightarrow> issue \<Rightarrow> bool" where
  "at_table sec ti x = (issue_section x = sec \<and> issue_table x = Some ti)"

definition at_row :: "nat \<Rightarrow> nat \<Rightarrow> nat \<Rightarrow> issue \<Rightarrow> bool" where
  "at_row sec ti ri x = (issue_section x = sec \<and> issue_table x = Some ti \<and> issue_row x = Some ri)"

text \<open>The duplicate-reference issues for one identifier.\<close>

fun duplicate_of :: "string \<Rightarrow> issue \<Rightarrow> bool" where
  "duplicate_of fid (FootnoteDuplicate f _) = (f = fid)"
| "duplicate_of fid _ = False"

fun is_family_grid_differs :: "issue \<Rightarrow> bool" where
  "is_family_grid_differs (FamilyGridDiffers _ _ _) = True"
| "is_family_grid_differs _ = False"

fun is_residual :: "issue \<Rightarrow> bool" where
  "is_residual (ResidualCommand _) = True"
| "is_residual _ = False"

fun is_unresolved :: "issue \<Rightarrow> bool" where
  "is_unresolved (UnresolvedField _) = True"
| "is_unresolved _ = False"

text \<open>
  The groups that the loop of section 5 does not skip: those with more than two
  members.
\<close>

definition families :: "xml list \<Rightarrow> (string \<times> nat list) list" where
  "families out_tables = filter (\<lambda>g. \<not> length (snd g) \<le> 2) (grid_groups out_tables)"

text \<open>The tables of a document that have a given grid, by index.\<close>

definition tables_with_grid :: "xml list \<Rightarrow> string list \<Rightarrow> nat list" where
  "tables_with_grid out_tables g =
     filter (\<lambda>i. table_grid (out_tables ! i) = g) [0..<length out_tables]"

subsection \<open>Building documents\<close>

text \<open>Small WordprocessingML trees, for running the comparison.\<close>

definition wel :: "string \<Rightarrow> xml list \<Rightarrow> xml" where
  "wel name cs = Element (wtag name) [] None cs"

definition wleaf :: "string \<Rightarrow> string \<Rightarrow> string \<Rightarrow> xml" where
  "wleaf name key v = Element (wtag name) [(wtag key, v)] None []"

definition wpara :: "string \<Rightarrow> xml" where
  "wpara s = wel ''p'' [wel ''r'' [Element (wtag ''t'') [] (Some s) []]]"

definition wcell :: "string \<Rightarrow> xml" where
  "wcell s = wel ''tc'' [wpara s]"

definition wcell_span :: "string \<Rightarrow> string \<Rightarrow> xml" where
  "wcell_span n s = wel ''tc'' [wel ''tcPr'' [wleaf ''gridSpan'' ''val'' n], wpara s]"

definition wtable :: "string list \<Rightarrow> xml list list \<Rightarrow> xml" where
  "wtable grid rows =
     wel ''tbl'' (wel ''tblGrid'' (map (wleaf ''gridCol'' ''w'') grid) # map (wel ''tr'') rows)"

definition wfootnote_ref :: "string \<Rightarrow> xml" where
  "wfootnote_ref fid = wel ''p'' [wel ''r'' [wleaf ''footnoteReference'' ''id'' fid]]"

definition wroot :: "xml list \<Rightarrow> xml" where
  "wroot body = wel ''document'' [wel ''body'' body]"

definition wdoc :: "xml list \<Rightarrow> docx" where
  "wdoc body = \<lparr> document_xml = Parsed (wroot body), footnotes_xml = Absent \<rparr>"

text \<open>
  An output with one table of two grid columns: the spans of its first two rows sum to
  two, those of its third row to three.
\<close>

definition span_example :: "xml list" where
  "span_example =
     [wtable [''100'', ''200'']
        [[wcell ''a'', wcell ''b''], [wcell_span ''2'' ''c''], [wcell_span ''3'' ''d'']]]"

text \<open>
  A template and an output for the matcher: two template tables labelled \<open>A\<close> and \<open>C\<close>,
  three output tables labelled \<open>A\<close>, \<open>B\<close> and \<open>A\<close>, the second \<open>A\<close> with the grid of
  the template's.
\<close>

definition match_tpl :: "xml list" where
  "match_tpl = [wtable [''300''] [[wcell ''A'']], wtable [''100''] [[wcell ''C'']]]"

definition match_out :: "xml list" where
  "match_out =
     [wtable [''100''] [[wcell ''A'']], wtable [''200''] [[wcell ''B'']],
      wtable [''300''] [[wcell ''A'']]]"

text \<open>
  A template table of two rows and the output table it is matched with, of one row; and
  a pair whose second rows have one cell and two cells.
\<close>

definition rows_tpl :: "xml list" where
  "rows_tpl = [wtable [''100''] [[wcell ''A''], [wcell ''x'']]]"

definition rows_out :: "xml list" where
  "rows_out = [wtable [''100''] [[wcell ''A'']]]"

definition cells_tpl :: "xml list" where
  "cells_tpl = [wtable [''100'', ''200''] [[wcell ''A'', wcell ''B''], [wcell_span ''2'' ''x'']]]"

definition cells_out :: "xml list" where
  "cells_out = [wtable [''100'', ''200''] [[wcell ''A'', wcell ''B''], [wcell ''x'', wcell ''y'']]]"

text \<open>
  Two documents to compare with themselves: one whose two tables have the same label and
  different grids, one whose tables have different labels and whose only command is a
  plain field.
\<close>

definition twins :: "xml list" where
  "twins = [wtable [''100''] [[wcell ''A'']], wtable [''200''] [[wcell ''A'']]]"

definition plain :: "xml list" where
  "plain =
     [wpara ''Dear {name}'',
      wtable [''100'', ''200''] [[wcell ''A'', wcell ''B'']],
      wtable [''300''] [[wcell_span ''1'' ''C'']]]"

text \<open>
  Outputs for the loop-expansion check. In \<open>family_out\<close> three tables have the grid of two
  columns: the first has one row of two cells, the second two rows, of which the first
  has one cell, the third one row of one cell. In \<open>pair_out\<close> two tables have the same
  grid.
\<close>

definition family_out :: "xml list" where
  "family_out =
     [wtable [''100'', ''200''] [[wcell ''A'', wcell ''B'']],
      wtable [''100'', ''200''] [[wcell_span ''2'' ''C''], [wcell ''D'', wcell ''E'']],
      wtable [''100'', ''200''] [[wcell_span ''2'' ''F'']]]"

definition pair_out :: "xml list" where
  "pair_out = [wtable [''100''] [[wcell ''A'']], wtable [''100''] [[wcell ''B'']]]"

section \<open>Lemmas\<close>

subsection \<open>Exceptions\<close>

lemma bind_e_Inr [simp]: "bind_e (Inr x) f = f x"
  by (simp add: bind_e_def)

lemma bind_e_Inl [simp]: "bind_e (Inl e) f = Inl e"
  by (simp add: bind_e_def)

lemma bind_e_eq_Inr: "bind_e m f = Inr y \<longleftrightarrow> (\<exists>x. m = Inr x \<and> f x = Inr y)"
  by (cases m) simp_all

lemma mapM_e_Inr: "mapM_e f xs = Inr ys \<longleftrightarrow> list_all2 (\<lambda>x y. f x = Inr y) xs ys"
proof (induction xs arbitrary: ys)
  case Nil
  show ?case by auto
next
  case (Cons x xs)
  show ?case
    by (auto simp: bind_e_eq_Inr Cons.IH list_all2_Cons1)
qed

lemma mapM_e_length: "mapM_e f xs = Inr ys \<Longrightarrow> length ys = length xs"
  by (simp add: mapM_e_Inr list_all2_lengthD)

lemma mapM_e_nth: "mapM_e f xs = Inr ys \<Longrightarrow> j < length xs \<Longrightarrow> f (xs ! j) = Inr (ys ! j)"
  by (auto simp: mapM_e_Inr dest: list_all2_nthD)

lemma mapM_e_total:
  "(\<And>x. x \<in> set xs \<Longrightarrow> \<exists>y. f x = Inr y) \<Longrightarrow> \<exists>ys. mapM_e f xs = Inr ys"
proof (induction xs)
  case Nil
  show ?case by simp
next
  case (Cons x xs)
  obtain y where y: "f x = Inr y" using Cons.prems[of x] by auto
  obtain ys where ys: "mapM_e f xs = Inr ys" using Cons by auto
  show ?case by (simp add: y ys)
qed

lemma mapM_e_all:
  "mapM_e f xs = Inr ys \<Longrightarrow> (\<And>x y. x \<in> set xs \<Longrightarrow> f x = Inr y \<Longrightarrow> P y) \<Longrightarrow> y \<in> set ys \<Longrightarrow> P y"
proof -
  assume m: "mapM_e f xs = Inr ys" and p: "\<And>x y. x \<in> set xs \<Longrightarrow> f x = Inr y \<Longrightarrow> P y"
    and y: "y \<in> set ys"
  from y obtain j where j: "j < length ys" "ys ! j = y" by (auto simp: in_set_conv_nth)
  have l: "length ys = length xs" using m by (rule mapM_e_length)
  have "f (xs ! j) = Inr (ys ! j)" using m j l by (simp add: mapM_e_nth)
  then show "P y" using p[of "xs ! j" "ys ! j"] j l by simp
qed

lemma cmd_compare_Inr:
  assumes "cmd_compare to_int tpl_path out_path = Inr rep"
  obtains tpl_root out_root out_cmds matched issues4 issues5 instances issues6 where
    "document_xml tpl_path = Parsed tpl_root"
    "document_xml out_path = Parsed out_root"
    "find_commands out_path = Inr out_cmds"
    "table_grid_comparison to_int (el_iter (wtag ''tbl'') tpl_root) (el_iter (wtag ''tbl'') out_root)
       = Inr (matched, issues4)"
    "for_loop_expansion to_int (el_iter (wtag ''tbl'') out_root) = Inr (issues5, instances)"
    "row_anomalies to_int (el_iter (wtag ''tbl'') out_root) = Inr issues6"
    "r_matched rep = matched"
    "r_instances rep = instances"
    "r_row_issues_count rep = length issues6"
    "r_issues rep = residual_commands out_cmds @ footnote_consistency out_root out_path
                      @ issues4 @ issues5 @ issues6"
proof -
  from assms obtain tpl_root where a: "read_docx_xml tpl_path = Inr tpl_root"
    by (auto simp: cmd_compare_def bind_e_eq_Inr)
  from assms obtain out_root where b: "read_docx_xml out_path = Inr out_root"
    by (auto simp: cmd_compare_def bind_e_eq_Inr)
  have a': "document_xml tpl_path = Parsed tpl_root"
    using a by (auto simp: read_docx_xml_def split: part.splits)
  have b': "document_xml out_path = Parsed out_root"
    using b by (auto simp: read_docx_xml_def split: part.splits)
  show ?thesis
    using assms a b a' b' that[of tpl_root out_root]
    by (auto simp: cmd_compare_def bind_e_eq_Inr Let_def)
qed

subsection \<open>Commands\<close>

lemma startswith_iff: "startswith s p \<longleftrightarrow> (\<exists>r. s = p @ r)"
proof
  assume "startswith s p"
  then have "s = p @ drop (length p) s"
    by (metis append_take_drop_id startswith_def)
  then show "\<exists>r. s = p @ r" ..
next
  assume "\<exists>r. s = p @ r"
  then show "startswith s p" by (auto simp: startswith_def)
qed

lemma find_commands_Inr:
  "find_commands path = Inr cmds \<longleftrightarrow>
     (\<exists>paras. extract_paras path = Inr paras \<and>
        cmds = concat (map (\<lambda>p. map (\<lambda>g. \<lparr> c_para = p_i p, c_tbl = p_tbl p,
                                          c_raw = strip g, c_type = command_type (strip g) \<rparr>)
                                  (finditer (p_text p))) paras))"
  by (auto simp: find_commands_def bind_e_eq_Inr)

lemma find_commands_type:
  "find_commands path = Inr cmds \<Longrightarrow> c \<in> set cmds \<Longrightarrow> c_type c = command_type (c_raw c)"
  by (auto simp: find_commands_Inr)

subsection \<open>Lists\<close>

lemma filter_empty_if: "(\<And>x. x \<in> set xs \<Longrightarrow> \<not> P x) \<Longrightarrow> filter P xs = []"
  by (induction xs) auto

lemma mapM_e_concat_map_all:
  assumes "mapM_e f xs = Inr ys" "y \<in> set (concat (map g ys))"
    and "\<And>a r. a \<in> set xs \<Longrightarrow> f a = Inr r \<Longrightarrow> y \<in> set (g r) \<Longrightarrow> P"
  shows P
proof -
  from assms(2) obtain r where r: "r \<in> set ys" "y \<in> set (g r)" by auto
  from r(1) obtain j where j: "j < length ys" "ys ! j = r" by (auto simp: in_set_conv_nth)
  have l: "length ys = length xs" using assms(1) by (rule mapM_e_length)
  have "f (xs ! j) = Inr r" using mapM_e_nth[OF assms(1), of j] j l by simp
  then show P using assms(3)[of "xs ! j" r] j l r(2) by simp
qed

lemma mapM_e_concat_all:
  assumes "mapM_e f xs = Inr ys" "y \<in> set (concat ys)"
    and "\<And>a r. a \<in> set xs \<Longrightarrow> f a = Inr r \<Longrightarrow> y \<in> set r \<Longrightarrow> P"
  shows P
  using mapM_e_concat_map_all[of f xs ys y "\<lambda>r. r" P] assms by simp

subsection \<open>Section 4: the body of the loop over the template tables\<close>

lemma table_issues_skipped:
  "contains ''{FOR'' (table_label tpl_tbl) \<or> contains ''{$'' (table_label tpl_tbl)
   \<Longrightarrow> table_issues to_int out_tables ti tpl_tbl = Inr (False, [])"
  by (simp add: table_issues_def Let_def)

lemma table_issues_unmatched:
  "find_table_in_output out_tables (table_label tpl_tbl) (table_grid tpl_tbl) = None
   \<Longrightarrow> table_issues to_int out_tables ti tpl_tbl = Inr (False, [])"
  by (simp add: table_issues_def Let_def)

lemma table_issues_matched:
  assumes "\<not> contains ''{FOR'' (table_label tpl_tbl)" "\<not> contains ''{$'' (table_label tpl_tbl)"
    and "find_table_in_output out_tables (table_label tpl_tbl) (table_grid tpl_tbl) = Some oi"
  shows "table_issues to_int out_tables ti tpl_tbl =
     bind_e (mapM_e (\<lambda>ri. row_issues to_int ti ri (el_findall (wtag ''tr'') tpl_tbl ! ri)
                                              (el_findall (wtag ''tr'') (out_tables ! oi) ! ri))
               [0..<min (length (el_findall (wtag ''tr'') tpl_tbl))
                        (length (el_findall (wtag ''tr'') (out_tables ! oi)))])
       (\<lambda>rows. Inr (True,
          (if table_grid tpl_tbl \<noteq> table_grid (out_tables ! oi)
           then [GridMismatch ti (take 40 (table_label tpl_tbl)) (table_grid tpl_tbl)
                   (table_grid (out_tables ! oi))] else [])
          @ (if table_width tpl_tbl \<noteq> table_width (out_tables ! oi)
             then [TblWMismatch ti (take 40 (table_label tpl_tbl)) (table_width tpl_tbl)
                     (table_width (out_tables ! oi))] else [])
          @ concat rows))"
  using assms by (simp add: table_issues_def Let_def)

lemma row_issues_Inr:
  "row_issues to_int ti ri tpl_row out_row = Inr xs \<longleftrightarrow>
     (\<exists>tpl_cw out_cw. row_cell_widths to_int tpl_row = Inr tpl_cw
        \<and> row_cell_widths to_int out_row = Inr out_cw
        \<and> xs = (if length tpl_cw \<noteq> length out_cw
                 then [CellCount ti ri (length tpl_cw) (length out_cw)]
                 else concat (map (\<lambda>ci. cell_issues ti ri ci (tpl_cw ! ci) (out_cw ! ci))
                                  [0..<length tpl_cw])))"
  unfolding row_issues_def bind_e_eq_Inr by (auto split del: if_split)

lemma cell_issues_at:
  "x \<in> set (cell_issues ti ri ci tw ow) \<Longrightarrow>
     issue_section x = 4 \<and> issue_table x = Some ti \<and> issue_row x = Some ri \<and> issue_cell x = Some ci"
  by (auto simp: cell_issues_def split: if_splits)

lemma row_issues_at:
  assumes "row_issues to_int ti ri tpl_row out_row = Inr xs" "x \<in> set xs"
  shows "issue_section x = 4 \<and> issue_table x = Some ti \<and> issue_row x = Some ri"
proof -
  from assms(1) obtain tpl_cw out_cw where
    xs: "xs = (if length tpl_cw \<noteq> length out_cw
                 then [CellCount ti ri (length tpl_cw) (length out_cw)]
                 else concat (map (\<lambda>ci. cell_issues ti ri ci (tpl_cw ! ci) (out_cw ! ci))
                                  [0..<length tpl_cw]))"
    by (auto simp: row_issues_Inr)
  show ?thesis
  proof (cases "length tpl_cw \<noteq> length out_cw")
    case True
    then show ?thesis using xs assms(2) by simp
  next
    case False
    then obtain ci where "x \<in> set (cell_issues ti ri ci (tpl_cw ! ci) (out_cw ! ci))"
      using xs assms(2) by auto
    then show ?thesis by (simp add: cell_issues_at)
  qed
qed

lemma table_issues_at:
  assumes "table_issues to_int out_tables ti tpl_tbl = Inr (m, xs)" "x \<in> set xs"
  shows "issue_section x = 4 \<and> issue_table x = Some ti"
proof (cases "contains ''{FOR'' (table_label tpl_tbl) \<or> contains ''{$'' (table_label tpl_tbl)")
  case True
  then show ?thesis using assms by (simp add: table_issues_skipped)
next
  case ns: False
  show ?thesis
  proof (cases "find_table_in_output out_tables (table_label tpl_tbl) (table_grid tpl_tbl)")
    case None
    then show ?thesis using assms by (simp add: table_issues_unmatched)
  next
    case (Some oi)
    from ns Some assms(1) obtain rows where rows:
      "mapM_e (\<lambda>ri. row_issues to_int ti ri (el_findall (wtag ''tr'') tpl_tbl ! ri)
                                              (el_findall (wtag ''tr'') (out_tables ! oi) ! ri))
               [0..<min (length (el_findall (wtag ''tr'') tpl_tbl))
                        (length (el_findall (wtag ''tr'') (out_tables ! oi)))] = Inr rows"
      and xs: "xs = (if table_grid tpl_tbl \<noteq> table_grid (out_tables ! oi)
           then [GridMismatch ti (take 40 (table_label tpl_tbl)) (table_grid tpl_tbl)
                   (table_grid (out_tables ! oi))] else [])
          @ (if table_width tpl_tbl \<noteq> table_width (out_tables ! oi)
             then [TblWMismatch ti (take 40 (table_label tpl_tbl)) (table_width tpl_tbl)
                     (table_width (out_tables ! oi))] else [])
          @ concat rows"
      by (auto simp: table_issues_matched bind_e_eq_Inr)
    from assms(2) xs consider
      (g) "x = GridMismatch ti (take 40 (table_label tpl_tbl)) (table_grid tpl_tbl)
                   (table_grid (out_tables ! oi))"
      | (w) "x = TblWMismatch ti (take 40 (table_label tpl_tbl)) (table_width tpl_tbl)
                     (table_width (out_tables ! oi))"
      | (r) "x \<in> set (concat rows)"
      by (auto split: if_splits)
    then show ?thesis
    proof cases
      case g then show ?thesis by simp
    next
      case w then show ?thesis by simp
    next
      case r
      show ?thesis
        by (rule mapM_e_concat_all[OF rows r]) (simp add: row_issues_at)
    qed
  qed
qed

lemma table_grid_comparison_Inr:
  "table_grid_comparison to_int tpl_tables out_tables = Inr (m, xs) \<longleftrightarrow>
     (\<exists>rs. mapM_e (\<lambda>(ti, tpl_tbl). table_issues to_int out_tables ti tpl_tbl)
                    (enumerate 0 tpl_tables) = Inr rs
        \<and> m = length (filter fst rs) \<and> xs = concat (map snd rs))"
  by (auto simp: table_grid_comparison_def bind_e_eq_Inr)

lemma section_table_grid_comparison:
  assumes "table_grid_comparison to_int tpl_tables out_tables = Inr (m, xs)" "x \<in> set xs"
  shows "issue_section x = 4"
proof -
  from assms(1) obtain rs where rs:
    "mapM_e (\<lambda>(ti, tpl_tbl). table_issues to_int out_tables ti tpl_tbl) (enumerate 0 tpl_tables) = Inr rs"
    "xs = concat (map snd rs)"
    by (auto simp: table_grid_comparison_Inr)
  have x: "x \<in> set (concat (map snd rs))" using assms(2) rs(2) by simp
  show ?thesis
  proof (rule mapM_e_concat_map_all[OF rs(1) x])
    fix a r
    assume "(case a of (ti, tpl_tbl) \<Rightarrow> table_issues to_int out_tables ti tpl_tbl) = Inr r"
      and "x \<in> set (snd r)"
    then show "issue_section x = 4"
      using table_issues_at[of to_int out_tables "fst a" "snd a" "fst r" "snd r" x]
      by (simp add: case_prod_beta)
  qed
qed

subsection \<open>Section 5\<close>

lemma instance_issues_skipped:
  "length (el_findall (wtag ''tr'') (out_tables ! idx)) \<noteq> length ref_rows
   \<Longrightarrow> instance_issues to_int out_tables ref_idx ref_rows idx = Inr []"
  by (simp add: instance_issues_def Let_def)

lemma instance_issues_compared:
  "length (el_findall (wtag ''tr'') (out_tables ! idx)) = length ref_rows
   \<Longrightarrow> instance_issues to_int out_tables ref_idx ref_rows idx =
       bind_e (mapM_e (\<lambda>ri.
                  bind_e (row_cell_widths to_int (ref_rows ! ri)) (\<lambda>ref_cw.
                  bind_e (row_cell_widths to_int (el_findall (wtag ''tr'') (out_tables ! idx) ! ri))
                    (\<lambda>cur_cw.
                      Inr (if length ref_cw \<noteq> length cur_cw
                           then [FamilyCellCount idx ri (length cur_cw) ref_idx (length ref_cw)]
                           else []))))
                [0..<length ref_rows]) (\<lambda>xs. Inr (concat xs))"
  by (simp add: instance_issues_def Let_def)

lemma instance_issues_at:
  assumes "instance_issues to_int out_tables ref_idx ref_rows idx = Inr xs" "x \<in> set xs"
  shows "\<exists>ri cur rf. x = FamilyCellCount idx ri cur ref_idx rf"
proof (cases "length (el_findall (wtag ''tr'') (out_tables ! idx)) = length ref_rows")
  case False
  then show ?thesis using assms by (simp add: instance_issues_skipped)
next
  case True
  with assms(1) obtain ys where ys:
    "mapM_e (\<lambda>ri.
        bind_e (row_cell_widths to_int (ref_rows ! ri)) (\<lambda>ref_cw.
        bind_e (row_cell_widths to_int (el_findall (wtag ''tr'') (out_tables ! idx) ! ri)) (\<lambda>cur_cw.
          Inr (if length ref_cw \<noteq> length cur_cw
               then [FamilyCellCount idx ri (length cur_cw) ref_idx (length ref_cw)]
               else []))))
      [0..<length ref_rows] = Inr ys"
    "xs = concat ys"
    by (auto simp: instance_issues_compared bind_e_eq_Inr)
  have x: "x \<in> set (concat ys)" using assms(2) ys(2) by simp
  show ?thesis
    by (rule mapM_e_concat_all[OF ys(1) x]) (auto simp: bind_e_eq_Inr split: if_splits)
qed

lemma group_issues_skipped:
  "length (snd grp) \<le> 2 \<Longrightarrow> group_issues to_int out_tables grp = Inr ([], [])"
  by (simp add: group_issues_def Let_def)

lemma group_issues_family:
  "\<not> length (snd grp) \<le> 2 \<Longrightarrow>
   group_issues to_int out_tables grp =
     bind_e (mapM_e (instance_issues to_int out_tables (hd (snd grp))
                       (el_findall (wtag ''tr'') (out_tables ! hd (snd grp))))
               (tl (snd grp)))
       (\<lambda>xs. Inr (concat (map (\<lambda>(idx, g).
                                  if g \<noteq> hd (map (\<lambda>i. table_grid (out_tables ! i)) (snd grp))
                                  then [FamilyGridDiffers idx
                                          (hd (map (\<lambda>i. table_grid (out_tables ! i)) (snd grp))) g]
                                  else [])
                               (zip (snd grp) (map (\<lambda>i. table_grid (out_tables ! i)) (snd grp))))
                   @ concat xs,
                   [(length (snd grp), take 60 (fst grp),
                     take 40 (table_label (out_tables ! hd (snd grp))))]))"
  by (simp add: group_issues_def Let_def)

lemma section_group_issues:
  assumes "group_issues to_int out_tables grp = Inr (xs, ls)" "x \<in> set xs"
  shows "issue_section x = 5"
proof (cases "length (snd grp) \<le> 2")
  case True
  then show ?thesis using assms by (simp add: group_issues_skipped)
next
  case False
  with assms(1) obtain ys where ys:
    "mapM_e (instance_issues to_int out_tables (hd (snd grp))
              (el_findall (wtag ''tr'') (out_tables ! hd (snd grp)))) (tl (snd grp)) = Inr ys"
    "xs = concat (map (\<lambda>(idx, g). if g \<noteq> hd (map (\<lambda>i. table_grid (out_tables ! i)) (snd grp))
                                     then [FamilyGridDiffers idx (hd (map (\<lambda>i. table_grid (out_tables ! i)) (snd grp))) g]
                                     else [])
                    (zip (snd grp) (map (\<lambda>i. table_grid (out_tables ! i)) (snd grp))))
          @ concat ys"
    by (auto simp: group_issues_family bind_e_eq_Inr)
  from assms(2) ys(2) consider
    (a) "x \<in> set (concat (map (\<lambda>(idx, g). if g \<noteq> hd (map (\<lambda>i. table_grid (out_tables ! i)) (snd grp))
                                     then [FamilyGridDiffers idx (hd (map (\<lambda>i. table_grid (out_tables ! i)) (snd grp))) g]
                                     else [])
                    (zip (snd grp) (map (\<lambda>i. table_grid (out_tables ! i)) (snd grp)))))"
    | (b) "x \<in> set (concat ys)"
    by auto
  then show ?thesis
  proof cases
    case a
    then show ?thesis by (auto split: if_splits)
  next
    case b
    show ?thesis
    proof (rule mapM_e_concat_all[OF ys(1) b])
      fix a r
      assume "instance_issues to_int out_tables (hd (snd grp))
                (el_findall (wtag ''tr'') (out_tables ! hd (snd grp))) a = Inr r" "x \<in> set r"
      then show "issue_section x = 5" by (auto dest: instance_issues_at)
    qed
  qed
qed

lemma for_loop_expansion_Inr:
  "for_loop_expansion to_int out_tables = Inr (xs, ls) \<longleftrightarrow>
     (\<exists>rs. mapM_e (group_issues to_int out_tables) (grid_groups out_tables) = Inr rs
        \<and> xs = concat (map fst rs) \<and> ls = concat (map snd rs))"
  by (auto simp: for_loop_expansion_def bind_e_eq_Inr)

lemma section_for_loop_expansion:
  assumes "for_loop_expansion to_int out_tables = Inr (xs, ls)" "x \<in> set xs"
  shows "issue_section x = 5"
proof -
  from assms(1) obtain rs where rs:
    "mapM_e (group_issues to_int out_tables) (grid_groups out_tables) = Inr rs"
    "xs = concat (map fst rs)"
    by (auto simp: for_loop_expansion_Inr)
  have x: "x \<in> set (concat (map fst rs))" using assms(2) rs(2) by simp
  show ?thesis
  proof (rule mapM_e_concat_map_all[OF rs(1) x])
    fix a r
    assume "group_issues to_int out_tables a = Inr r" "x \<in> set (fst r)"
    then show "issue_section x = 5"
      using section_group_issues[of to_int out_tables a "fst r" "snd r" x] by simp
  qed
qed

subsection \<open>Section 6\<close>

lemma span_row_issues_Inr:
  "span_row_issues to_int i grid_cols ri row = Inr xs \<longleftrightarrow>
     (\<exists>cells. row_cell_widths to_int row = Inr cells
        \<and> xs = (if sum_list (map ci_span cells) \<noteq> int grid_cols
                 then [SpanAnomaly i ri (sum_list (map ci_span cells)) grid_cols (length cells)
                         (take 4 (map (\<lambda>c. take 25 (cell_text c))
                                      (el_findall (wtag ''tc'') row)))]
                 else []))"
  unfolding span_row_issues_def bind_e_eq_Inr Let_def by (auto split del: if_split)

lemma span_row_issues_at:
  "span_row_issues to_int i grid_cols ri row = Inr xs \<Longrightarrow> x \<in> set xs \<Longrightarrow>
     issue_section x = 6 \<and> issue_table x = Some i \<and> issue_row x = Some ri"
  by (auto simp: span_row_issues_Inr split: if_splits)

lemma span_table_issues_skipped:
  "table_grid tbl = [] \<Longrightarrow> span_table_issues to_int i tbl = Inr []"
  by (simp add: span_table_issues_def)

lemma span_table_issues_checked:
  "table_grid tbl \<noteq> [] \<Longrightarrow>
   span_table_issues to_int i tbl =
     bind_e (mapM_e (\<lambda>(ri, row). span_row_issues to_int i (length (table_grid tbl)) ri row)
                    (enumerate 0 (el_findall (wtag ''tr'') tbl)))
       (\<lambda>xs. Inr (concat xs))"
  by (simp add: span_table_issues_def Let_def)

lemma span_table_issues_at:
  assumes "span_table_issues to_int i tbl = Inr xs" "x \<in> set xs"
  shows "issue_section x = 6 \<and> issue_table x = Some i"
proof (cases "table_grid tbl = []")
  case True
  then show ?thesis using assms by (simp add: span_table_issues_skipped)
next
  case False
  with assms(1) obtain ys where ys:
    "mapM_e (\<lambda>(ri, row). span_row_issues to_int i (length (table_grid tbl)) ri row)
       (enumerate 0 (el_findall (wtag ''tr'') tbl)) = Inr ys"
    "xs = concat ys"
    by (auto simp: span_table_issues_checked bind_e_eq_Inr)
  have x: "x \<in> set (concat ys)" using assms(2) ys(2) by simp
  show ?thesis
  proof (rule mapM_e_concat_all[OF ys(1) x])
    fix a r
    assume "(case a of (ri, row) \<Rightarrow> span_row_issues to_int i (length (table_grid tbl)) ri row) = Inr r"
      "x \<in> set r"
    then show "issue_section x = 6 \<and> issue_table x = Some i"
      using span_row_issues_at[of to_int i "length (table_grid tbl)" "fst a" "snd a" r x]
      by (simp add: case_prod_beta)
  qed
qed

lemma row_anomalies_Inr:
  "row_anomalies to_int out_tables = Inr xs \<longleftrightarrow>
     (\<exists>ys. mapM_e (\<lambda>(i, tbl). span_table_issues to_int i tbl) (enumerate 0 out_tables) = Inr ys
        \<and> xs = concat ys)"
  by (auto simp: row_anomalies_def bind_e_eq_Inr)

lemma section_row_anomalies:
  assumes "row_anomalies to_int out_tables = Inr xs" "x \<in> set xs"
  shows "issue_section x = 6"
proof -
  from assms(1) obtain ys where ys:
    "mapM_e (\<lambda>(i, tbl). span_table_issues to_int i tbl) (enumerate 0 out_tables) = Inr ys"
    "xs = concat ys"
    by (auto simp: row_anomalies_Inr)
  have x: "x \<in> set (concat ys)" using assms(2) ys(2) by simp
  show ?thesis
  proof (rule mapM_e_concat_all[OF ys(1) x])
    fix a r
    assume "(case a of (i, tbl) \<Rightarrow> span_table_issues to_int i tbl) = Inr r" "x \<in> set r"
    then show "issue_section x = 6"
      using span_table_issues_at[of to_int "fst a" "snd a" r x] by (simp add: case_prod_beta)
  qed
qed

subsection \<open>Sections 2 and 3, and the whole list\<close>

lemma section_residual_commands:
  "x \<in> set (residual_commands out_cmds) \<Longrightarrow> issue_section x = 2"
  by (auto simp: residual_commands_def)

lemma section_footnote_consistency:
  "x \<in> set (footnote_consistency out_root out_path) \<Longrightarrow> issue_section x = 3"
  by (auto simp: footnote_consistency_def Let_def split: part.splits if_splits)

text \<open>The issues of one section, out of the whole list.\<close>

lemma issues_of_section:
  assumes c: "cmd_compare to_int tpl_path out_path = Inr rep"
    and P: "\<And>x. P x \<Longrightarrow> issue_section x = k"
  obtains tpl_root out_root out_cmds matched issues4 issues5 instances issues6 where
    "document_xml tpl_path = Parsed tpl_root"
    "document_xml out_path = Parsed out_root"
    "find_commands out_path = Inr out_cmds"
    "table_grid_comparison to_int (el_iter (wtag ''tbl'') tpl_root) (el_iter (wtag ''tbl'') out_root)
       = Inr (matched, issues4)"
    "for_loop_expansion to_int (el_iter (wtag ''tbl'') out_root) = Inr (issues5, instances)"
    "row_anomalies to_int (el_iter (wtag ''tbl'') out_root) = Inr issues6"
    "r_matched rep = matched"
    "r_instances rep = instances"
    "filter P (r_issues rep) =
       (if k = 2 then filter P (residual_commands out_cmds)
        else if k = 3 then filter P (footnote_consistency out_root out_path)
        else if k = 4 then filter P issues4
        else if k = 5 then filter P issues5
        else if k = 6 then filter P issues6 else [])"
proof -
  from c obtain tpl_root out_root out_cmds matched issues4 issues5 instances issues6 where h:
    "document_xml tpl_path = Parsed tpl_root"
    "document_xml out_path = Parsed out_root"
    "find_commands out_path = Inr out_cmds"
    "table_grid_comparison to_int (el_iter (wtag ''tbl'') tpl_root) (el_iter (wtag ''tbl'') out_root)
       = Inr (matched, issues4)"
    "for_loop_expansion to_int (el_iter (wtag ''tbl'') out_root) = Inr (issues5, instances)"
    "row_anomalies to_int (el_iter (wtag ''tbl'') out_root) = Inr issues6"
    "r_matched rep = matched"
    "r_instances rep = instances"
    "r_row_issues_count rep = length issues6"
    "r_issues rep = residual_commands out_cmds @ footnote_consistency out_root out_path
                      @ issues4 @ issues5 @ issues6"
    by (rule cmd_compare_Inr)
  have f2: "filter P (residual_commands out_cmds) = []" if "k \<noteq> 2"
    using that P by (intro filter_empty_if) (auto dest!: section_residual_commands)
  have f3: "filter P (footnote_consistency out_root out_path) = []" if "k \<noteq> 3"
    using that P by (intro filter_empty_if) (auto dest!: section_footnote_consistency)
  have f4: "filter P issues4 = []" if "k \<noteq> 4"
    using that P section_table_grid_comparison[OF h(4)] by (intro filter_empty_if) auto
  have f5: "filter P issues5 = []" if "k \<noteq> 5"
    using that P section_for_loop_expansion[OF h(5)] by (intro filter_empty_if) auto
  have f6: "filter P issues6 = []" if "k \<noteq> 6"
    using that P section_row_anomalies[OF h(6)] by (intro filter_empty_if) auto
  have "filter P (r_issues rep) =
             (if k = 2 then filter P (residual_commands out_cmds)
              else if k = 3 then filter P (footnote_consistency out_root out_path)
              else if k = 4 then filter P issues4
              else if k = 5 then filter P issues5
              else if k = 6 then filter P issues6 else [])"
    using f2 f3 f4 f5 f6 by (simp add: h(10))
  then show ?thesis using h(1-8) that by blast
qed

subsection \<open>Insertion-ordered dictionaries\<close>

lemma map_of_dict_upd: "map_of (dict_upd k f d) = (map_of d)(k \<mapsto> f (map_of d k))"
  by (induction d) (auto simp: fun_eq_iff)

lemma keys_dict_upd:
  "map fst (dict_upd k f d) = (if k \<in> fst ` set d then map fst d else map fst d @ [k])"
proof (induction d)
  case Nil
  show ?case by simp
next
  case (Cons kv d)
  obtain k' v where kv: "kv = (k', v)" by (cases kv)
  show ?case
  proof (cases "k' = k")
    case True
    then show ?thesis using kv by simp
  next
    case False
    then show ?thesis using kv Cons.IH by (cases "k \<in> fst ` set d") auto
  qed
qed

lemma distinct_dict_upd: "distinct (map fst d) \<Longrightarrow> distinct (map fst (dict_upd k f d))"
  by (simp add: keys_dict_upd)

lemma filter_concat_map_dict:
  assumes "distinct (map fst d)"
    and "\<And>k v x. (k, v) \<in> set d \<Longrightarrow> x \<in> set (g (k, v)) \<Longrightarrow> P x \<Longrightarrow> k = key"
  shows "filter P (concat (map g d)) =
           (case map_of d key of None \<Rightarrow> [] | Some v \<Rightarrow> filter P (g (key, v)))"
  using assms
proof (induction d)
  case Nil
  show ?case by simp
next
  case (Cons kv d)
  obtain k v where kv: "kv = (k, v)" by (cases kv)
  have d: "distinct (map fst d)" and k: "k \<notin> fst ` set d" using Cons.prems(1) kv by auto
  have ih: "filter P (concat (map g d)) =
              (case map_of d key of None \<Rightarrow> [] | Some v \<Rightarrow> filter P (g (key, v)))"
    using Cons.IH[OF d] Cons.prems(2) by auto
  show ?case
  proof (cases "k = key")
    case True
    then have "map_of d key = None" using k by (simp add: map_of_eq_None_iff)
    then show ?thesis using ih True kv by simp
  next
    case False
    have "filter P (g (k, v)) = []"
      using Cons.prems(2)[of k v] False kv by (intro filter_empty_if) auto
    then show ?thesis using ih False kv by simp
  qed
qed

subsection \<open>Section 3\<close>

lemma foldl_count:
  assumes "f None = 1" "\<And>n. f (Some n) = n + 1"
  shows "map_of (foldl (\<lambda>d fid. dict_upd fid f d) d0 refs) fid
     = (if count_list refs fid = 0 then map_of d0 fid
        else Some ((case map_of d0 fid of None \<Rightarrow> 0 | Some n \<Rightarrow> n) + count_list refs fid))"
proof (induction refs arbitrary: d0)
  case Nil
  show ?case by simp
next
  case (Cons r refs)
  show ?case
    by (cases "map_of d0 fid") (simp_all add: Cons.IH map_of_dict_upd assms)
qed

lemma foldl_count_distinct:
  "distinct (map fst d0) \<Longrightarrow> distinct (map fst (foldl (\<lambda>d fid. dict_upd fid f d) d0 refs))"
  by (induction refs arbitrary: d0) (simp_all add: distinct_dict_upd)

lemma map_of_fn_counts:
  "map_of (fn_counts refs) fid =
     (if count_list refs fid = 0 then None else Some (count_list refs fid))"
  unfolding fn_counts_def
  by (subst foldl_count) simp_all

lemma distinct_fn_counts: "distinct (map fst (fn_counts refs))"
  unfolding fn_counts_def by (rule foldl_count_distinct) simp

lemma footnote_consistency_duplicates:
  "filter (duplicate_of fid) (footnote_consistency out_root out_path) =
     (if count_list (footnote_refs out_root) fid > 1
      then [FootnoteDuplicate fid (count_list (footnote_refs out_root) fid)] else [])"
proof -
  let ?g = "\<lambda>(fid, count). if count > (1::nat) then [FootnoteDuplicate fid count] else []"
  have a: "filter (duplicate_of fid) (concat (map ?g (fn_counts (footnote_refs out_root)))) =
             (case map_of (fn_counts (footnote_refs out_root)) fid of
                None \<Rightarrow> [] | Some v \<Rightarrow> filter (duplicate_of fid) (?g (fid, v)))"
    by (rule filter_concat_map_dict[OF distinct_fn_counts]) (auto split: if_splits)
  have b: "filter (duplicate_of fid)
             (concat (map (\<lambda>f. if Some f \<notin> set ds then [FootnoteDangling f] else []) fs)) = []"
    for ds fs
    by (intro filter_empty_if) (auto split: if_splits)
  have c: "filter (duplicate_of fid) (footnote_consistency out_root out_path) =
             filter (duplicate_of fid) (concat (map ?g (fn_counts (footnote_refs out_root))))"
    by (cases "footnotes_xml out_path") (simp_all add: footnote_consistency_def Let_def b)
  show ?thesis
    unfolding c a by (simp add: map_of_fn_counts)
qed

subsection \<open>Loops over numbered lists\<close>

lemma filter_concat_nth:
  assumes "\<And>j. j < length ys \<Longrightarrow> j \<noteq> i \<Longrightarrow> filter P (ys ! j) = []"
  shows "filter P (concat ys) = (if i < length ys then filter P (ys ! i) else [])"
  using assms
proof (induction ys arbitrary: i)
  case Nil
  show ?case by simp
next
  case (Cons y ys)
  show ?case
  proof (cases i)
    case 0
    have "filter P (ys ! j) = []" if "j < length ys" for j
      using Cons.prems[of "Suc j"] that 0 by simp
    then have "\<not> P x" if "y' \<in> set ys" "x \<in> set y'" for x y'
      using that by (metis filter_empty_conv in_set_conv_nth)
    then have "filter P (concat ys) = []"
      by (intro filter_empty_if) auto
    then show ?thesis using 0 by simp
  next
    case (Suc i')
    have y: "filter P y = []" using Cons.prems[of 0] Suc by simp
    have "filter P (concat ys) = (if i' < length ys then filter P (ys ! i') else [])"
    proof (rule Cons.IH)
      fix j assume "j < length ys" "j \<noteq> i'"
      then show "filter P (ys ! j) = []" using Cons.prems[of "Suc j"] Suc by simp
    qed
    then show ?thesis using y Suc by simp
  qed
qed

lemma mapM_e_enumerate_length:
  "mapM_e f (enumerate 0 xs) = Inr ys \<Longrightarrow> length ys = length xs"
  by (drule mapM_e_length) simp

lemma mapM_e_enumerate_nth:
  "mapM_e f (enumerate 0 xs) = Inr ys \<Longrightarrow> j < length xs \<Longrightarrow> f (j, xs ! j) = Inr (ys ! j)"
  using mapM_e_nth[of f "enumerate 0 xs" ys j] by (simp add: nth_enumerate_eq)

lemma mapM_e_upt_nth:
  "mapM_e f [0..<n] = Inr ys \<Longrightarrow> j < n \<Longrightarrow> f j = Inr (ys ! j)"
  using mapM_e_nth[of f "[0..<n]" ys j] by simp

lemma mapM_e_upt_length: "mapM_e f [0..<n] = Inr ys \<Longrightarrow> length ys = n"
  by (drule mapM_e_length) simp

subsection \<open>Section 6: the issues of one row\<close>

lemma span_table_issues_row:
  assumes t: "span_table_issues to_int i tbl = Inr xs" and g: "table_grid tbl \<noteq> []"
  shows "(ri < length (el_findall (wtag ''tr'') tbl) \<longrightarrow>
           (\<exists>cells. row_cell_widths to_int (el_findall (wtag ''tr'') tbl ! ri) = Inr cells
              \<and> filter (at_row 6 i ri) xs =
                  (if sum_list (map ci_span cells) \<noteq> int (length (table_grid tbl))
                   then [SpanAnomaly i ri (sum_list (map ci_span cells)) (length (table_grid tbl))
                           (length cells)
                           (take 4 (map (\<lambda>c. take 25 (cell_text c))
                                        (el_findall (wtag ''tc'')
                                           (el_findall (wtag ''tr'') tbl ! ri))))]
                   else [])))
       \<and> (\<not> ri < length (el_findall (wtag ''tr'') tbl) \<longrightarrow> filter (at_row 6 i ri) xs = [])"
proof -
  let ?rows = "el_findall (wtag ''tr'') tbl"
  let ?n = "length (table_grid tbl)"
  from t g obtain zs where zs:
    "mapM_e (\<lambda>(ri, row). span_row_issues to_int i ?n ri row) (enumerate 0 ?rows) = Inr zs"
    "xs = concat zs"
    by (auto simp: span_table_issues_checked bind_e_eq_Inr)
  have l: "length zs = length ?rows" using zs(1) by (rule mapM_e_enumerate_length)
  have nth: "span_row_issues to_int i ?n j (?rows ! j) = Inr (zs ! j)" if "j < length ?rows" for j
    using mapM_e_enumerate_nth[OF zs(1) that] by simp
  have other: "filter (at_row 6 i ri) (zs ! j) = []" if "j < length zs" "j \<noteq> ri" for j
  proof (rule filter_empty_if)
    fix x assume "x \<in> set (zs ! j)"
    then have "issue_row x = Some j"
      using span_row_issues_at[OF nth[of j]] that l by simp
    then show "\<not> at_row 6 i ri x" using that by (simp add: at_row_def)
  qed
  have f: "filter (at_row 6 i ri) xs = (if ri < length zs then filter (at_row 6 i ri) (zs ! ri) else [])"
    unfolding zs(2) by (rule filter_concat_nth) (rule other)
  show ?thesis
  proof (intro conjI impI)
    assume r: "ri < length ?rows"
    from nth[OF r] obtain cells where c:
      "row_cell_widths to_int (?rows ! ri) = Inr cells"
      "zs ! ri = (if sum_list (map ci_span cells) \<noteq> int ?n
                 then [SpanAnomaly i ri (sum_list (map ci_span cells)) ?n (length cells)
                         (take 4 (map (\<lambda>c. take 25 (cell_text c))
                                      (el_findall (wtag ''tc'') (?rows ! ri))))]
                 else [])"
      by (auto simp: span_row_issues_Inr)
    have "filter (at_row 6 i ri) (zs ! ri) = zs ! ri"
      unfolding c(2) by (simp add: at_row_def)
    then show "\<exists>cells. row_cell_widths to_int (?rows ! ri) = Inr cells
              \<and> filter (at_row 6 i ri) xs =
                  (if sum_list (map ci_span cells) \<noteq> int ?n
                   then [SpanAnomaly i ri (sum_list (map ci_span cells)) ?n (length cells)
                           (take 4 (map (\<lambda>c. take 25 (cell_text c))
                                        (el_findall (wtag ''tc'') (?rows ! ri))))]
                   else [])"
      using c f r l by auto
  next
    assume "\<not> ri < length ?rows"
    then show "filter (at_row 6 i ri) xs = []" using f l by simp
  qed
qed

lemma row_anomalies_table:
  assumes a: "row_anomalies to_int out_tables = Inr xs" and i: "i < length out_tables"
    and P: "\<And>x. P x \<Longrightarrow> issue_table x = Some i"
  obtains ys where "span_table_issues to_int i (out_tables ! i) = Inr ys"
    "filter P xs = filter P ys"
proof -
  from a obtain ys where ys:
    "mapM_e (\<lambda>(i, tbl). span_table_issues to_int i tbl) (enumerate 0 out_tables) = Inr ys"
    "xs = concat ys"
    by (auto simp: row_anomalies_Inr)
  have l: "length ys = length out_tables" using ys(1) by (rule mapM_e_enumerate_length)
  have nth: "span_table_issues to_int j (out_tables ! j) = Inr (ys ! j)" if "j < length out_tables" for j
    using mapM_e_enumerate_nth[OF ys(1) that] by simp
  have other: "filter P (ys ! j) = []" if "j < length ys" "j \<noteq> i" for j
  proof (rule filter_empty_if)
    fix x assume "x \<in> set (ys ! j)"
    then have "issue_table x = Some j"
      using span_table_issues_at[OF nth[of j]] that l by simp
    then show "\<not> P x" using that P[of x] by auto
  qed
  have "filter P xs = (if i < length ys then filter P (ys ! i) else [])"
    unfolding ys(2) by (rule filter_concat_nth) (rule other)
  then have "filter P xs = filter P (ys ! i)" using i l by simp
  then show ?thesis using nth[OF i] that by blast
qed

lemma span_table_issues_clean:
  assumes t: "span_table_issues to_int i tbl = Inr xs" and g: "table_grid tbl \<noteq> []"
    and ok: "\<And>ri cells. ri < length (el_findall (wtag ''tr'') tbl) \<Longrightarrow>
               row_cell_widths to_int (el_findall (wtag ''tr'') tbl ! ri) = Inr cells \<Longrightarrow>
               sum_list (map ci_span cells) = int (length (table_grid tbl))"
  shows "xs = []"
proof -
  let ?rows = "el_findall (wtag ''tr'') tbl"
  from t g obtain zs where zs:
    "mapM_e (\<lambda>(ri, row). span_row_issues to_int i (length (table_grid tbl)) ri row)
       (enumerate 0 ?rows) = Inr zs"
    "xs = concat zs"
    by (auto simp: span_table_issues_checked bind_e_eq_Inr)
  have "x \<notin> set (concat zs)" for x
  proof
    assume x: "x \<in> set (concat zs)"
    show False
    proof (rule mapM_e_concat_all[OF zs(1) x])
      fix a r
      assume a: "a \<in> set (enumerate 0 ?rows)"
        and s: "(case a of (ri, row) \<Rightarrow> span_row_issues to_int i (length (table_grid tbl)) ri row)
                  = Inr r"
        and xr: "x \<in> set r"
      from a have ri: "fst a < length ?rows" "snd a = ?rows ! fst a"
        by (auto simp: in_set_enumerate_eq)
      from s ri(2) obtain cells where c:
        "row_cell_widths to_int (?rows ! fst a) = Inr cells"
        "r = (if sum_list (map ci_span cells) \<noteq> int (length (table_grid tbl))
              then [SpanAnomaly i (fst a) (sum_list (map ci_span cells)) (length (table_grid tbl))
                      (length cells)
                      (take 4 (map (\<lambda>c. take 25 (cell_text c))
                                   (el_findall (wtag ''tc'') (?rows ! fst a))))]
              else [])"
        by (auto simp: case_prod_beta span_row_issues_Inr)
      have "r = []" using c(2) ok[OF ri(1) c(1)] by simp
      then show False using xr by simp
    qed
  qed
  then have "concat zs = []" by (metis all_not_in_conv set_empty)
  then show ?thesis using zs(2) by simp
qed

lemma row_anomalies_beyond:
  assumes a: "row_anomalies to_int out_tables = Inr xs" and i: "\<not> i < length out_tables"
    and P: "\<And>x. P x \<Longrightarrow> issue_table x = Some i"
  shows "filter P xs = []"
proof -
  from a obtain ys where ys:
    "mapM_e (\<lambda>(i, tbl). span_table_issues to_int i tbl) (enumerate 0 out_tables) = Inr ys"
    "xs = concat ys"
    by (auto simp: row_anomalies_Inr)
  have l: "length ys = length out_tables" using ys(1) by (rule mapM_e_enumerate_length)
  have nth: "span_table_issues to_int j (out_tables ! j) = Inr (ys ! j)" if "j < length out_tables" for j
    using mapM_e_enumerate_nth[OF ys(1) that] by simp
  have other: "filter P (ys ! j) = []" if "j < length ys" "j \<noteq> i" for j
  proof (rule filter_empty_if)
    fix x assume "x \<in> set (ys ! j)"
    then have "issue_table x = Some j"
      using span_table_issues_at[OF nth[of j]] that l by simp
    then show "\<not> P x" using that P[of x] by auto
  qed
  have "filter P xs = (if i < length ys then filter P (ys ! i) else [])"
    unfolding ys(2) by (rule filter_concat_nth) (rule other)
  then show ?thesis using i l by simp
qed

subsection \<open>The matcher\<close>

lemma find_enumerate_Some:
  "List.find (\<lambda>(i, x). P x) (enumerate n xs) = Some (k, y) \<longleftrightarrow>
     n \<le> k \<and> k - n < length xs \<and> y = xs ! (k - n) \<and> P y \<and> (\<forall>j<k - n. \<not> P (xs ! j))"
proof (induction xs arbitrary: n)
  case Nil
  show ?case by simp
next
  case (Cons x xs)
  show ?case
  proof (cases "P x")
    case True
    have "k = n" if "n \<le> k" "\<forall>j<k - n. \<not> P ((x # xs) ! j)"
    proof (rule ccontr)
      assume "k \<noteq> n"
      then have "0 < k - n" using that(1) by arith
      then show False using that(2)[rule_format, of 0] True by simp
    qed
    then show ?thesis using True by auto
  next
    case False
    have "(\<forall>j<k - n. \<not> P ((x # xs) ! j)) \<longleftrightarrow> (\<forall>j<k - Suc n. \<not> P (xs ! j))" if "Suc n \<le> k"
    proof
      assume a: "\<forall>j<k - n. \<not> P ((x # xs) ! j)"
      show "\<forall>j<k - Suc n. \<not> P (xs ! j)"
      proof (intro allI impI)
        fix j assume "j < k - Suc n"
        then have "Suc j < k - n" using that by arith
        then show "\<not> P (xs ! j)" using a[rule_format, of "Suc j"] by simp
      qed
    next
      assume a: "\<forall>j<k - Suc n. \<not> P (xs ! j)"
      show "\<forall>j<k - n. \<not> P ((x # xs) ! j)"
      proof (intro allI impI)
        fix j assume j: "j < k - n"
        show "\<not> P ((x # xs) ! j)"
        proof (cases j)
          case 0
          then show ?thesis using False by simp
        next
          case (Suc j')
          then have "j' < k - Suc n" using j by arith
          then show ?thesis using a Suc by simp
        qed
      qed
    qed
    moreover have "y = (x # xs) ! (k - n) \<longleftrightarrow> y = xs ! (k - Suc n)" if "Suc n \<le> k"
      using that by (simp add: nth_Cons' Suc_le_eq)
    moreover have "n \<noteq> k" if "y = (x # xs) ! (k - n)" "P y"
      using that False by auto
    ultimately show ?thesis
      using False Cons.IH[of "Suc n"]
      by (cases "Suc n \<le> k") (auto simp: not_less_eq_eq)
  qed
qed

lemma find_table_in_output_Some:
  "find_table_in_output out_tables tpl_label tpl_grid = Some i \<longleftrightarrow>
     i < length out_tables \<and> table_label (out_tables ! i) = tpl_label
     \<and> (\<forall>j<i. table_label (out_tables ! j) \<noteq> tpl_label)"
proof -
  have "find_table_in_output out_tables tpl_label tpl_grid = Some i \<longleftrightarrow>
          (\<exists>t. List.find (\<lambda>(i, tbl). table_label tbl = tpl_label) (enumerate 0 out_tables)
                 = Some (i, t))"
    by (auto simp: find_table_in_output_def)
  then show ?thesis
    by (simp add: find_enumerate_Some)
qed

lemma find_table_in_output_None:
  "find_table_in_output out_tables tpl_label tpl_grid = None \<longleftrightarrow>
     tpl_label \<notin> table_label ` set out_tables"
proof -
  have "(\<exists>x. x \<in> set (enumerate 0 out_tables) \<and> (case x of (i, tbl) \<Rightarrow> table_label tbl = tpl_label))
          \<longleftrightarrow> tpl_label \<in> table_label ` set out_tables"
  proof
    assume "\<exists>x. x \<in> set (enumerate 0 out_tables) \<and> (case x of (i, tbl) \<Rightarrow> table_label tbl = tpl_label)"
    then obtain i t where "(i, t) \<in> set (enumerate 0 out_tables)" "table_label t = tpl_label"
      by auto
    then have "t \<in> set out_tables" "table_label t = tpl_label"
      by (auto simp: in_set_enumerate_eq)
    then show "tpl_label \<in> table_label ` set out_tables" by auto
  next
    assume "tpl_label \<in> table_label ` set out_tables"
    then obtain t where "t \<in> set out_tables" "table_label t = tpl_label" by auto
    then obtain i where "i < length out_tables" "out_tables ! i = t"
      by (auto simp: in_set_conv_nth)
    then have "(i, t) \<in> set (enumerate 0 out_tables)"
      by (auto simp: in_set_enumerate_eq)
    then show "\<exists>x. x \<in> set (enumerate 0 out_tables) \<and> (case x of (i, tbl) \<Rightarrow> table_label tbl = tpl_label)"
      using \<open>table_label t = tpl_label\<close> by auto
  qed
  then show ?thesis
    by (simp add: find_table_in_output_def find_None_iff)
qed

subsection \<open>Section 4: the issues of one template table\<close>

lemma table_grid_comparison_table:
  assumes a: "table_grid_comparison to_int tpl_tables out_tables = Inr (m, xs)"
    and i: "ti < length tpl_tables"
    and P: "\<And>x. P x \<Longrightarrow> issue_table x = Some ti"
  obtains b ys where "table_issues to_int out_tables ti (tpl_tables ! ti) = Inr (b, ys)"
    "filter P xs = filter P ys"
proof -
  from a obtain rs where rs:
    "mapM_e (\<lambda>(ti, tpl_tbl). table_issues to_int out_tables ti tpl_tbl) (enumerate 0 tpl_tables) = Inr rs"
    "xs = concat (map snd rs)"
    by (auto simp: table_grid_comparison_Inr)
  have l: "length rs = length tpl_tables" using rs(1) by (rule mapM_e_enumerate_length)
  have nth: "table_issues to_int out_tables j (tpl_tables ! j) = Inr (rs ! j)"
    if "j < length tpl_tables" for j
    using mapM_e_enumerate_nth[OF rs(1) that] by simp
  have other: "filter P (map snd rs ! j) = []" if "j < length (map snd rs)" "j \<noteq> ti" for j
  proof (rule filter_empty_if)
    fix x assume "x \<in> set (map snd rs ! j)"
    then have "x \<in> set (snd (rs ! j))" using that by simp
    then have "issue_table x = Some j"
      using table_issues_at[of to_int out_tables j "tpl_tables ! j" "fst (rs ! j)" "snd (rs ! j)" x]
        nth[of j] that l by simp
    then show "\<not> P x" using that P[of x] by auto
  qed
  have "filter P xs = (if ti < length (map snd rs) then filter P (map snd rs ! ti) else [])"
    unfolding rs(2) by (rule filter_concat_nth) (rule other)
  then have "filter P xs = filter P (snd (rs ! ti))" using i l by simp
  then show ?thesis using nth[OF i] that[of "fst (rs ! ti)" "snd (rs ! ti)"] by simp
qed

lemma table_issues_fst:
  assumes "table_issues to_int out_tables ti tpl_tbl = Inr r"
  shows "fst r \<longleftrightarrow>
           \<not> contains ''{FOR'' (table_label tpl_tbl) \<and> \<not> contains ''{$'' (table_label tpl_tbl)
           \<and> find_table_in_output out_tables (table_label tpl_tbl) (table_grid tpl_tbl) \<noteq> None"
proof (cases "contains ''{FOR'' (table_label tpl_tbl) \<or> contains ''{$'' (table_label tpl_tbl)")
  case True
  then show ?thesis using assms by (auto simp: table_issues_skipped)
next
  case ns: False
  show ?thesis
  proof (cases "find_table_in_output out_tables (table_label tpl_tbl) (table_grid tpl_tbl)")
    case None
    then show ?thesis using assms by (auto simp: table_issues_unmatched)
  next
    case (Some oi)
    then show ?thesis using assms ns by (auto simp: table_issues_matched bind_e_eq_Inr)
  qed
qed

lemma length_filter_list_all2:
  "list_all2 (\<lambda>x r. Q r = P x) xs rs \<Longrightarrow> length (filter Q rs) = length (filter P xs)"
  by (induction xs rs rule: list_all2_induct) auto

lemma table_grid_comparison_matched:
  assumes a: "table_grid_comparison to_int tpl_tables out_tables = Inr (m, xs)"
  shows "m = length (filter (\<lambda>t. \<not> contains ''{FOR'' (table_label t) \<and> \<not> contains ''{$'' (table_label t)
                \<and> find_table_in_output out_tables (table_label t) (table_grid t) \<noteq> None)
             tpl_tables)"
proof -
  let ?Q = "\<lambda>t. \<not> contains ''{FOR'' (table_label t) \<and> \<not> contains ''{$'' (table_label t)
                \<and> find_table_in_output out_tables (table_label t) (table_grid t) \<noteq> None"
  from a obtain rs where rs:
    "mapM_e (\<lambda>(ti, tpl_tbl). table_issues to_int out_tables ti tpl_tbl) (enumerate 0 tpl_tables) = Inr rs"
    "m = length (filter fst rs)"
    by (auto simp: table_grid_comparison_Inr)
  have l: "length rs = length tpl_tables" using rs(1) by (rule mapM_e_enumerate_length)
  have "list_all2 (\<lambda>t r. fst r = ?Q t) tpl_tables rs"
    unfolding list_all2_conv_all_nth
  proof (intro conjI allI impI)
    show "length tpl_tables = length rs" using l by simp
  next
    fix j assume j: "j < length tpl_tables"
    have "table_issues to_int out_tables j (tpl_tables ! j) = Inr (rs ! j)"
      using mapM_e_enumerate_nth[OF rs(1) j] by simp
    then show "fst (rs ! j) = ?Q (tpl_tables ! j)" by (rule table_issues_fst)
  qed
  then have "length (filter fst rs) = length (filter ?Q tpl_tables)"
    by (rule length_filter_list_all2)
  then show ?thesis using rs(2) by simp
qed

subsection \<open>Section 4: the issues of one row\<close>

lemma filter_all: "(\<And>x. x \<in> set xs \<Longrightarrow> P x) \<Longrightarrow> filter P xs = xs"
  by (induction xs) auto

lemma table_issues_row:
  assumes t: "table_issues to_int out_tables ti tpl_tbl = Inr (b, xs)"
    and ns: "\<not> contains ''{FOR'' (table_label tpl_tbl)" "\<not> contains ''{$'' (table_label tpl_tbl)"
    and m: "find_table_in_output out_tables (table_label tpl_tbl) (table_grid tpl_tbl) = Some oi"
  shows "(ri < min (length (el_findall (wtag ''tr'') tpl_tbl))
                   (length (el_findall (wtag ''tr'') (out_tables ! oi))) \<longrightarrow>
           (\<exists>tpl_cw out_cw.
              row_cell_widths to_int (el_findall (wtag ''tr'') tpl_tbl ! ri) = Inr tpl_cw
            \<and> row_cell_widths to_int (el_findall (wtag ''tr'') (out_tables ! oi) ! ri) = Inr out_cw
            \<and> filter (at_row 4 ti ri) xs =
                (if length tpl_cw \<noteq> length out_cw
                 then [CellCount ti ri (length tpl_cw) (length out_cw)]
                 else concat (map (\<lambda>ci. cell_issues ti ri ci (tpl_cw ! ci) (out_cw ! ci))
                                  [0..<length tpl_cw]))))
       \<and> (\<not> ri < min (length (el_findall (wtag ''tr'') tpl_tbl))
                       (length (el_findall (wtag ''tr'') (out_tables ! oi))) \<longrightarrow>
            filter (at_row 4 ti ri) xs = [])"
proof -
  let ?tr = "el_findall (wtag ''tr'') tpl_tbl"
  let ?or = "el_findall (wtag ''tr'') (out_tables ! oi)"
  let ?n = "min (length ?tr) (length ?or)"
  let ?P = "at_row 4 ti ri"
  from t ns m obtain rows where rows:
    "mapM_e (\<lambda>ri. row_issues to_int ti ri (?tr ! ri) (?or ! ri)) [0..<?n] = Inr rows"
    and xs: "xs = (if table_grid tpl_tbl \<noteq> table_grid (out_tables ! oi)
           then [GridMismatch ti (take 40 (table_label tpl_tbl)) (table_grid tpl_tbl)
                   (table_grid (out_tables ! oi))] else [])
          @ (if table_width tpl_tbl \<noteq> table_width (out_tables ! oi)
             then [TblWMismatch ti (take 40 (table_label tpl_tbl)) (table_width tpl_tbl)
                     (table_width (out_tables ! oi))] else [])
          @ concat rows"
    by (auto simp: table_issues_matched bind_e_eq_Inr)
  have l: "length rows = ?n" using rows by (rule mapM_e_upt_length)
  have nth: "row_issues to_int ti j (?tr ! j) (?or ! j) = Inr (rows ! j)" if "j < ?n" for j
    using mapM_e_upt_nth[OF rows that] .
  have other: "filter ?P (rows ! j) = []" if "j < length rows" "j \<noteq> ri" for j
  proof (rule filter_empty_if)
    fix x assume "x \<in> set (rows ! j)"
    then have "issue_row x = Some j"
      using row_issues_at[OF nth[of j]] that l by simp
    then show "\<not> ?P x" using that by (simp add: at_row_def)
  qed
  have c: "filter ?P (concat rows) = (if ri < length rows then filter ?P (rows ! ri) else [])"
    by (rule filter_concat_nth) (rule other)
  have f: "filter ?P xs = (if ri < length rows then filter ?P (rows ! ri) else [])"
    unfolding xs using c by (simp add: at_row_def)
  show ?thesis
  proof (intro conjI impI)
    assume r: "ri < ?n"
    from nth[OF r] obtain tpl_cw out_cw where w:
      "row_cell_widths to_int (?tr ! ri) = Inr tpl_cw"
      "row_cell_widths to_int (?or ! ri) = Inr out_cw"
      "rows ! ri = (if length tpl_cw \<noteq> length out_cw
                 then [CellCount ti ri (length tpl_cw) (length out_cw)]
                 else concat (map (\<lambda>ci. cell_issues ti ri ci (tpl_cw ! ci) (out_cw ! ci))
                                  [0..<length tpl_cw]))"
      unfolding row_issues_Inr by blast
    have "filter ?P (rows ! ri) = rows ! ri"
    proof (rule filter_all)
      fix x assume "x \<in> set (rows ! ri)"
      then show "?P x" using row_issues_at[OF nth[OF r]] by (simp add: at_row_def)
    qed
    then have "filter ?P xs = rows ! ri" using f r l by simp
    then show "\<exists>tpl_cw out_cw.
              row_cell_widths to_int (?tr ! ri) = Inr tpl_cw
            \<and> row_cell_widths to_int (?or ! ri) = Inr out_cw
            \<and> filter ?P xs =
                (if length tpl_cw \<noteq> length out_cw
                 then [CellCount ti ri (length tpl_cw) (length out_cw)]
                 else concat (map (\<lambda>ci. cell_issues ti ri ci (tpl_cw ! ci) (out_cw ! ci))
                                  [0..<length tpl_cw]))"
      using w by (intro exI[of _ tpl_cw] exI[of _ out_cw]) simp
  next
    assume "\<not> ri < ?n"
    then have "\<not> ri < length rows" unfolding l .
    then show "filter ?P xs = []" using f by (simp only: if_False)
  qed
qed

subsection \<open>A document against itself\<close>

lemma cell_issues_same: "cell_issues ti ri ci w w = []"
  by (simp add: cell_issues_def)

lemma row_issues_same: "row_issues to_int ti ri row row = Inr xs \<Longrightarrow> xs = []"
  by (auto simp: row_issues_Inr cell_issues_same)

lemma find_table_in_output_self:
  assumes "distinct (map table_label tables)" "ti < length tables"
  shows "find_table_in_output tables (table_label (tables ! ti)) g = Some ti"
proof -
  have "table_label (tables ! j) \<noteq> table_label (tables ! ti)" if "j < ti" for j
  proof
    assume "table_label (tables ! j) = table_label (tables ! ti)"
    then have e: "map table_label tables ! j = map table_label tables ! ti"
      using that assms(2) by simp
    have "\<forall>i<length (map table_label tables). \<forall>j<length (map table_label tables).
            i \<noteq> j \<longrightarrow> map table_label tables ! i \<noteq> map table_label tables ! j"
      using assms(1) by (simp only: distinct_conv_nth)
    then have "map table_label tables ! j \<noteq> map table_label tables ! ti"
      using that assms(2) by simp
    then show False using e by simp
  qed
  then show ?thesis using assms(2) by (simp add: find_table_in_output_Some)
qed

lemma table_issues_self:
  assumes d: "distinct (map table_label tables)" and i: "ti < length tables"
    and t: "table_issues to_int tables ti (tables ! ti) = Inr (b, xs)"
  shows "xs = []"
proof (cases "contains ''{FOR'' (table_label (tables ! ti)) \<or> contains ''{$'' (table_label (tables ! ti))")
  case True
  then show ?thesis using t by (simp add: table_issues_skipped)
next
  case False
  let ?tr = "el_findall (wtag ''tr'') (tables ! ti)"
  have m: "find_table_in_output tables (table_label (tables ! ti)) (table_grid (tables ! ti)) = Some ti"
    using d i by (rule find_table_in_output_self)
  from t False m obtain rows where rows:
    "mapM_e (\<lambda>ri. row_issues to_int ti ri (?tr ! ri) (?tr ! ri)) [0..<min (length ?tr) (length ?tr)]
       = Inr rows"
    and xs: "xs = concat rows"
    by (auto simp: table_issues_matched bind_e_eq_Inr)
  have "x \<notin> set (concat rows)" for x
  proof
    assume x: "x \<in> set (concat rows)"
    show False
    proof (rule mapM_e_concat_all[OF rows x])
      fix a r assume "row_issues to_int ti a (?tr ! a) (?tr ! a) = Inr r" "x \<in> set r"
      then show False using row_issues_same[of to_int ti a "?tr ! a" r] by simp
    qed
  qed
  then have "concat rows = []" by (metis all_not_in_conv set_empty)
  then show ?thesis using xs by simp
qed

lemma table_grid_comparison_self:
  assumes d: "distinct (map table_label tables)"
    and g: "table_grid_comparison to_int tables tables = Inr (m, xs)"
  shows "xs = []"
proof -
  from g obtain rs where rs:
    "mapM_e (\<lambda>(ti, tpl_tbl). table_issues to_int tables ti tpl_tbl) (enumerate 0 tables) = Inr rs"
    "xs = concat (map snd rs)"
    by (auto simp: table_grid_comparison_Inr)
  have "x \<notin> set (concat (map snd rs))" for x
  proof
    assume x: "x \<in> set (concat (map snd rs))"
    show False
    proof (rule mapM_e_concat_map_all[OF rs(1) x])
      fix a r
      assume a: "a \<in> set (enumerate 0 tables)"
        and t: "(case a of (ti, tpl_tbl) \<Rightarrow> table_issues to_int tables ti tpl_tbl) = Inr r"
        and xr: "x \<in> set (snd r)"
      from a have i: "fst a < length tables" "snd a = tables ! fst a"
        by (auto simp: in_set_enumerate_eq)
      have "table_issues to_int tables (fst a) (tables ! fst a) = Inr (fst r, snd r)"
        using t i(2) by (simp add: case_prod_beta)
      then have "snd r = []" using table_issues_self[OF d i(1)] by blast
      then show False using xr by simp
    qed
  qed
  then have "concat (map snd rs) = []" by (metis all_not_in_conv set_empty)
  then show ?thesis using rs(2) by simp
qed

lemma residual_commands_fields:
  assumes "\<And>c. c \<in> set cmds \<Longrightarrow> c_type c = ''field'' \<and> \<not> startswith (c_raw c) ''$''"
  shows "residual_commands cmds = []"
proof -
  have "''field'' \<notin> set control_types" by (simp add: control_types_def)
  then have "filter (\<lambda>c. c_type c \<in> set control_types) cmds = []"
    using assms by (intro filter_empty_if) auto
  moreover have "filter (\<lambda>c. c_type c = ''field'' \<and> startswith (c_raw c) ''$'') cmds = []"
    using assms by (intro filter_empty_if) auto
  ultimately show ?thesis by (simp add: residual_commands_def)
qed

subsection \<open>\<open>str(tuple(xs))\<close> determines \<open>xs\<close>\<close>

lemma hexdigit_inj_upto:
  "\<forall>a \<in> set [0..<16]. \<forall>b \<in> set [0..<16]. hexdigit a = hexdigit b \<longrightarrow> a = b"
  by code_simp

lemma hexdigit_inj: "a < 16 \<Longrightarrow> b < 16 \<Longrightarrow> hexdigit a = hexdigit b \<Longrightarrow> a = b"
  using hexdigit_inj_upto by simp

lemma hex2_inj: "hex2 c = hex2 d \<Longrightarrow> c = d"
proof -
  assume h: "hex2 c = hex2 d"
  let ?m = "of_char c :: nat" and ?n = "of_char d :: nat"
  have b: "?m < 256" "?n < 256" by simp_all
  have "?m div 16 < 16" "?n div 16 < 16" using b by (simp_all add: less_mult_imp_div_less)
  moreover have "?m mod 16 < 16" "?n mod 16 < 16" by simp_all
  moreover have "hexdigit (?m div 16) = hexdigit (?n div 16)" "hexdigit (?m mod 16) = hexdigit (?n mod 16)"
    using h by (simp_all add: hex2_def)
  ultimately have "?m div 16 = ?n div 16" "?m mod 16 = ?n mod 16"
    by (auto intro: hexdigit_inj)
  then have "?m = ?n" by (metis div_mult_mod_eq)
  then show "c = d" by simp
qed

lemma hex2_append: "hex2 c @ r = hex2 d @ r' \<Longrightarrow> c = d \<and> r = r'"
proof -
  assume a: "hex2 c @ r = hex2 d @ r'"
  have "length (hex2 c) = length (hex2 d)" by (simp add: hex2_def)
  then have "hex2 c = hex2 d \<and> r = r'" using a by simp
  then show ?thesis by (auto dest: hex2_inj)
qed

lemma repr_quote_cases: "repr_quote s = CHR 0x27 \<or> repr_quote s = CHR 0x22"
  by (simp add: repr_quote_def)

lemma repr_char_cases:
  "(repr_char q c = [CHR 0x5C, c] \<and> (c = q \<or> c = CHR 0x5C))
   \<or> (repr_char q c = [CHR 0x5C, CHR ''t''] \<and> c = CHR 0x09)
   \<or> (repr_char q c = [CHR 0x5C, CHR ''n''] \<and> c = CHR 0x0A)
   \<or> (repr_char q c = [CHR 0x5C, CHR ''r''] \<and> c = CHR 0x0D)
   \<or> (repr_char q c = [CHR 0x5C, CHR ''x''] @ hex2 c \<and> c \<noteq> q \<and> c \<noteq> CHR 0x5C)
   \<or> (repr_char q c = [c] \<and> c \<noteq> q \<and> c \<noteq> CHR 0x5C)"
  by (simp add: repr_char_def)

lemma repr_char_not_quote:
  assumes "q = CHR 0x27 \<or> q = CHR 0x22"
  shows "repr_char q c @ r \<noteq> q # r'"
  using assms repr_char_cases[of q c] by auto

lemma repr_char_append:
  assumes q: "q = CHR 0x27 \<or> q = CHR 0x22"
    and e: "repr_char q c @ r = repr_char q d @ r'"
  shows "c = d \<and> r = r'"
proof -
  consider
    (a) "repr_char q c = [CHR 0x5C, c]" "c = q \<or> c = CHR 0x5C"
    | (t) "repr_char q c = [CHR 0x5C, CHR ''t'']" "c = CHR 0x09"
    | (n) "repr_char q c = [CHR 0x5C, CHR ''n'']" "c = CHR 0x0A"
    | (r) "repr_char q c = [CHR 0x5C, CHR ''r'']" "c = CHR 0x0D"
    | (x) "repr_char q c = [CHR 0x5C, CHR ''x''] @ hex2 c" "c \<noteq> q" "c \<noteq> CHR 0x5C"
    | (p) "repr_char q c = [c]" "c \<noteq> q" "c \<noteq> CHR 0x5C"
    using repr_char_cases[of q c] by blast
  then show ?thesis
  proof cases
    case a
    then show ?thesis using e q repr_char_cases[of q d] by (auto dest: hex2_append)
  next
    case t
    then show ?thesis using e q repr_char_cases[of q d] by (auto dest: hex2_append)
  next
    case n
    then show ?thesis using e q repr_char_cases[of q d] by (auto dest: hex2_append)
  next
    case r
    then show ?thesis using e q repr_char_cases[of q d] by (auto dest: hex2_append)
  next
    case x
    then show ?thesis using e q repr_char_cases[of q d] by (auto dest: hex2_append)
  next
    case p
    then show ?thesis using e q repr_char_cases[of q d] by (auto dest: hex2_append)
  qed
qed

lemma repr_body_append:
  assumes q: "q = CHR 0x27 \<or> q = CHR 0x22"
  shows "concat (map (repr_char q) s) @ q # r = concat (map (repr_char q) s') @ q # r'
         \<Longrightarrow> s = s' \<and> r = r'"
proof (induction s arbitrary: s')
  case Nil
  show ?case
  proof (cases s')
    case Nil
    then show ?thesis using Nil.prems by simp
  next
    case (Cons d ds)
    then have "repr_char q d @ (concat (map (repr_char q) ds) @ q # r') = q # r"
      using Nil.prems by simp
    then show ?thesis using repr_char_not_quote[OF q] by blast
  qed
next
  case (Cons c cs)
  show ?case
  proof (cases s')
    case Nil
    then have "repr_char q c @ (concat (map (repr_char q) cs) @ q # r) = q # r'"
      using Cons.prems by simp
    then show ?thesis using repr_char_not_quote[OF q] by blast
  next
    case (Cons d ds)
    then have "repr_char q c @ (concat (map (repr_char q) cs) @ q # r)
                 = repr_char q d @ (concat (map (repr_char q) ds) @ q # r')"
      using Cons.prems by simp
    then have "c = d" "concat (map (repr_char q) cs) @ q # r = concat (map (repr_char q) ds) @ q # r'"
      using repr_char_append[OF q] by blast+
    then show ?thesis using Cons.IH[of ds] Cons by simp
  qed
qed

lemma py_repr_append: "py_repr s @ r = py_repr s' @ r' \<Longrightarrow> s = s' \<and> r = r'"
proof -
  assume a: "py_repr s @ r = py_repr s' @ r'"
  then have e: "repr_quote s = repr_quote s'" by (simp add: py_repr_def)
  have "concat (map (repr_char (repr_quote s)) s) @ repr_quote s # r
          = concat (map (repr_char (repr_quote s)) s') @ repr_quote s # r'"
    using a e by (simp add: py_repr_def)
  then show ?thesis by (rule repr_body_append[OF repr_quote_cases])
qed

lemma py_repr_head: "\<exists>t. py_repr s = CHR 0x27 # t \<or> py_repr s = CHR 0x22 # t"
  using repr_quote_cases[of s] by (auto simp: py_repr_def)

lemma join_reprs_append:
  assumes "a = '')'' \<or> a = '',)''" "b = '')'' \<or> b = '',)''"
  shows "xs \<noteq> [] \<Longrightarrow> ys \<noteq> [] \<Longrightarrow>
         join '', '' (map py_repr xs) @ a = join '', '' (map py_repr ys) @ b \<Longrightarrow> xs = ys \<and> a = b"
proof (induction xs arbitrary: ys)
  case Nil
  then show ?case by simp
next
  case (Cons x xs)
  from Cons.prems(2) obtain y ys' where ys: "ys = y # ys'" by (cases ys) auto
  show ?case
  proof (cases xs)
    case xn: Nil
    show ?thesis
    proof (cases ys')
      case Nil
      then show ?thesis using Cons.prems(3) xn ys by (auto dest: py_repr_append)
    next
      case (Cons y' ys'')
      then have "py_repr x @ a = py_repr y @ ('', '' @ join '', '' (map py_repr (y' # ys'')) @ b)"
        using Cons.prems(3) xn ys by simp
      then have "a = '', '' @ join '', '' (map py_repr (y' # ys'')) @ b"
        by (auto dest: py_repr_append)
      then show ?thesis using assms(1) by auto
    qed
  next
    case xc: (Cons x' xs')
    show ?thesis
    proof (cases ys')
      case Nil
      then have "py_repr x @ ('', '' @ join '', '' (map py_repr (x' # xs')) @ a) = py_repr y @ b"
        using Cons.prems(3) xc ys by simp
      then have "'', '' @ join '', '' (map py_repr (x' # xs')) @ a = b"
        by (auto dest: py_repr_append)
      then show ?thesis using assms(2) by auto
    next
      case (Cons y' ys'')
      then have "py_repr x @ ('', '' @ join '', '' (map py_repr (x' # xs')) @ a)
                   = py_repr y @ ('', '' @ join '', '' (map py_repr (y' # ys'')) @ b)"
        using Cons.prems(3) xc ys by simp
      then have "x = y" "join '', '' (map py_repr xs) @ a = join '', '' (map py_repr ys') @ b"
        using xc Cons by (auto dest: py_repr_append)
      then show ?thesis using Cons.IH[of ys'] xc Cons ys by simp
    qed
  qed
qed

lemma str_tuple_join:
  "str_tuple xs = ''('' @ join '', '' (map py_repr xs) @ (if length xs = 1 then '',)'' else '')'')"
proof (cases xs)
  case Nil
  then show ?thesis by (simp add: str_tuple_def)
next
  case (Cons x xs')
  then show ?thesis by (cases xs') (simp_all add: str_tuple_def)
qed

lemma join_reprs_head:
  "xs \<noteq> [] \<Longrightarrow> \<exists>t. join '', '' (map py_repr xs) @ r = CHR 0x27 # t
                    \<or> join '', '' (map py_repr xs) @ r = CHR 0x22 # t"
proof (cases xs)
  case Nil
  then show "xs \<noteq> [] \<Longrightarrow> ?thesis" by simp
next
  case (Cons x xs')
  then show ?thesis using py_repr_head[of x] by (cases xs') auto
qed

lemma str_tuple_inj: "str_tuple xs = str_tuple ys \<longleftrightarrow> xs = ys"
proof
  assume e: "str_tuple xs = str_tuple ys"
  let ?a = "if length xs = 1 then '',)'' else '')''"
  let ?b = "if length ys = 1 then '',)'' else '')''"
  have j: "join '', '' (map py_repr xs) @ ?a = join '', '' (map py_repr ys) @ ?b"
    using e unfolding str_tuple_join by simp
  show "xs = ys"
  proof (cases "xs = []")
    case xe: True
    show ?thesis
    proof (cases "ys = []")
      case True
      then show ?thesis using xe by simp
    next
      case False
      from join_reprs_head[OF False, of ?b] j xe show ?thesis by auto
    qed
  next
    case xn: False
    show ?thesis
    proof (cases "ys = []")
      case True
      from join_reprs_head[OF xn, of ?a] j True show ?thesis by auto
    next
      case False
      have "?a = '')'' \<or> ?a = '',)''" "?b = '')'' \<or> ?b = '',)''" by auto
      from join_reprs_append[OF this xn False j] show ?thesis by simp
    qed
  qed
next
  assume "xs = ys"
  then show "str_tuple xs = str_tuple ys" by simp
qed

subsection \<open>Section 5: the groups\<close>

lemma foldl_groups_snoc:
  "foldl (\<lambda>d (i, x). dict_upd (f x) (\<lambda>v. (case v of None \<Rightarrow> [] | Some l \<Rightarrow> l) @ [i]) d) []
         (enumerate 0 (xs @ [x]))
   = dict_upd (f x) (\<lambda>v. (case v of None \<Rightarrow> [] | Some l \<Rightarrow> l) @ [length xs])
       (foldl (\<lambda>d (i, x). dict_upd (f x) (\<lambda>v. (case v of None \<Rightarrow> [] | Some l \<Rightarrow> l) @ [i]) d) []
              (enumerate 0 xs))"
  by (simp add: enumerate_append_eq)

lemma filter_upt_snoc:
  "filter (\<lambda>i. f ((xs @ [x]) ! i) = k) [0..<length (xs @ [x])]
   = filter (\<lambda>i. f (xs ! i) = k) [0..<length xs] @ (if f x = k then [length xs] else [])"
proof -
  have "filter (\<lambda>i. f ((xs @ [x]) ! i) = k) [0..<length xs]
          = filter (\<lambda>i. f (xs ! i) = k) [0..<length xs]"
    by (rule filter_cong) (simp_all add: nth_append)
  then show ?thesis by simp
qed

lemma foldl_groups:
  "distinct (map fst (foldl (\<lambda>d (i, x). dict_upd (f x)
                               (\<lambda>v. (case v of None \<Rightarrow> [] | Some l \<Rightarrow> l) @ [i]) d) []
                            (enumerate 0 xs)))
   \<and> (\<forall>k. map_of (foldl (\<lambda>d (i, x). dict_upd (f x)
                               (\<lambda>v. (case v of None \<Rightarrow> [] | Some l \<Rightarrow> l) @ [i]) d) []
                          (enumerate 0 xs)) k
          = (if filter (\<lambda>i. f (xs ! i) = k) [0..<length xs] = [] then None
             else Some (filter (\<lambda>i. f (xs ! i) = k) [0..<length xs])))"
proof (induction xs rule: rev_induct)
  case Nil
  show ?case by simp
next
  case (snoc x xs)
  let ?G = "foldl (\<lambda>d (i, x). dict_upd (f x) (\<lambda>v. (case v of None \<Rightarrow> [] | Some l \<Rightarrow> l) @ [i]) d) []
              (enumerate 0 xs)"
  have d: "distinct (map fst ?G)" and m: "\<And>k. map_of ?G k
          = (if filter (\<lambda>i. f (xs ! i) = k) [0..<length xs] = [] then None
             else Some (filter (\<lambda>i. f (xs ! i) = k) [0..<length xs]))"
    using snoc.IH by blast+
  show ?case
    unfolding foldl_groups_snoc filter_upt_snoc
    by (intro conjI allI distinct_dict_upd d) (simp add: map_of_dict_upd m)
qed

lemma grid_groups_distinct: "distinct (map fst (grid_groups out_tables))"
  unfolding grid_groups_def using foldl_groups[of "\<lambda>tbl. str_tuple (table_grid tbl)" out_tables]
  by blast

lemma map_of_grid_groups:
  "map_of (grid_groups out_tables) (str_tuple g)
     = (if tables_with_grid out_tables g = [] then None
        else Some (tables_with_grid out_tables g))"
  unfolding grid_groups_def tables_with_grid_def
  using foldl_groups[of "\<lambda>tbl. str_tuple (table_grid tbl)" out_tables]
  by (simp add: str_tuple_inj)

lemma grid_groups_member:
  assumes "(k, l) \<in> set (grid_groups out_tables)"
  shows "l \<noteq> [] \<and> l = filter (\<lambda>i. str_tuple (table_grid (out_tables ! i)) = k) [0..<length out_tables]"
proof -
  have "map_of (grid_groups out_tables) k = Some l"
    using assms grid_groups_distinct by simp
  moreover have "map_of (grid_groups out_tables) k
          = (if filter (\<lambda>i. str_tuple (table_grid (out_tables ! i)) = k) [0..<length out_tables] = []
             then None
             else Some (filter (\<lambda>i. str_tuple (table_grid (out_tables ! i)) = k)
                               [0..<length out_tables]))"
    unfolding grid_groups_def
    using foldl_groups[of "\<lambda>tbl. str_tuple (table_grid tbl)" out_tables] by blast
  ultimately show ?thesis by (auto split: if_splits)
qed

lemma grid_groups_grid:
  assumes "(k, l) \<in> set (grid_groups out_tables)"
  shows "hd l < length out_tables \<and> k = str_tuple (table_grid (out_tables ! hd l))
         \<and> l = tables_with_grid out_tables (table_grid (out_tables ! hd l))"
proof -
  let ?l = "filter (\<lambda>i. str_tuple (table_grid (out_tables ! i)) = k) [0..<length out_tables]"
  have l: "l \<noteq> []" "l = ?l" using grid_groups_member[OF assms] by blast+
  then have "hd l \<in> set ?l" by (metis hd_in_set)
  then have h: "hd l < length out_tables" "str_tuple (table_grid (out_tables ! hd l)) = k"
    by simp_all
  have "?l = tables_with_grid out_tables (table_grid (out_tables ! hd l))"
    unfolding tables_with_grid_def h(2)[symmetric] by (simp add: str_tuple_inj)
  then show ?thesis using h l by simp
qed

lemma grid_groups_same_grid:
  assumes "(k, l) \<in> set (grid_groups out_tables)" "i \<in> set l"
  shows "table_grid (out_tables ! i) = table_grid (out_tables ! hd l)"
proof -
  have "l = tables_with_grid out_tables (table_grid (out_tables ! hd l))"
    using grid_groups_grid[OF assms(1)] by simp
  then have "i \<in> set (tables_with_grid out_tables (table_grid (out_tables ! hd l)))"
    using assms(2) by simp
  then show ?thesis by (simp add: tables_with_grid_def)
qed

lemma families_iff:
  "(str_tuple g, tables_with_grid out_tables g) \<in> set (families out_tables)
     \<longleftrightarrow> 2 < length (tables_with_grid out_tables g)"
proof -
  have "(str_tuple g, l) \<in> set (grid_groups out_tables)
          \<longleftrightarrow> map_of (grid_groups out_tables) (str_tuple g) = Some l" for l
    using grid_groups_distinct[of out_tables] by simp
  then have "(str_tuple g, tables_with_grid out_tables g) \<in> set (grid_groups out_tables)
          \<longleftrightarrow> tables_with_grid out_tables g \<noteq> []"
    by (simp add: map_of_grid_groups)
  then show ?thesis by (auto simp: families_def)
qed

lemma families_member:
  assumes "fam \<in> set (families out_tables)" "i \<in> set (snd fam)"
  shows "i < length out_tables
         \<and> fam = (str_tuple (table_grid (out_tables ! i)),
                  tables_with_grid out_tables (table_grid (out_tables ! i)))
         \<and> 2 < length (tables_with_grid out_tables (table_grid (out_tables ! i)))"
proof -
  obtain k l where f: "fam = (k, l)" by (cases fam)
  have g: "(k, l) \<in> set (grid_groups out_tables)" and n: "2 < length l"
    using assms(1) f by (auto simp: families_def)
  have il: "i \<in> set l" using assms(2) f by simp
  have e: "table_grid (out_tables ! i) = table_grid (out_tables ! hd l)"
    using grid_groups_same_grid[OF g il] .
  have "l = filter (\<lambda>i. str_tuple (table_grid (out_tables ! i)) = k) [0..<length out_tables]"
    using grid_groups_member[OF g] by simp
  then have "i < length out_tables" using il by (metis atLeastLessThan_iff mem_Collect_eq set_filter set_upt)
  then show ?thesis using grid_groups_grid[OF g] e f n by simp
qed

subsection \<open>Section 5: the issues of one group\<close>

lemma zip_map_self: "zip l (map h l) = map (\<lambda>a. (a, h a)) l"
  by (induction l) simp_all

lemma group_issues_family_Inr:
  assumes "\<not> length l \<le> 2" "group_issues to_int out_tables (k, l) = Inr (xs, ls)"
  obtains ys where
    "mapM_e (instance_issues to_int out_tables (hd l)
              (el_findall (wtag ''tr'') (out_tables ! hd l))) (tl l) = Inr ys"
    "xs = concat (map (\<lambda>idx. if table_grid (out_tables ! idx) \<noteq> table_grid (out_tables ! hd l)
                              then [FamilyGridDiffers idx (table_grid (out_tables ! hd l))
                                      (table_grid (out_tables ! idx))]
                              else [])
                     l)
          @ concat ys"
    "ls = [(length l, take 60 k, take 40 (table_label (out_tables ! hd l)))]"
proof -
  have ne: "l \<noteq> []" using assms(1) by auto
  have h: "hd (map (\<lambda>i. table_grid (out_tables ! i)) l) = table_grid (out_tables ! hd l)"
    using ne by (simp add: hd_map)
  have n: "\<not> length (snd (k, l)) \<le> 2" using assms(1) by simp
  from assms(2) obtain ys where ys:
    "mapM_e (instance_issues to_int out_tables (hd l)
              (el_findall (wtag ''tr'') (out_tables ! hd l))) (tl l) = Inr ys"
    "xs = concat (map (\<lambda>(idx, g). if g \<noteq> hd (map (\<lambda>i. table_grid (out_tables ! i)) l)
                                     then [FamilyGridDiffers idx (hd (map (\<lambda>i. table_grid (out_tables ! i)) l)) g]
                                     else [])
                    (zip l (map (\<lambda>i. table_grid (out_tables ! i)) l)))
          @ concat ys"
    "ls = [(length l, take 60 k, take 40 (table_label (out_tables ! hd l)))]"
    unfolding group_issues_family[OF n] fst_conv snd_conv by (auto simp: bind_e_eq_Inr)
  have "xs = concat (map (\<lambda>idx. if table_grid (out_tables ! idx) \<noteq> table_grid (out_tables ! hd l)
                              then [FamilyGridDiffers idx (table_grid (out_tables ! hd l))
                                      (table_grid (out_tables ! idx))]
                              else [])
                     l)
          @ concat ys"
    unfolding ys(2) h zip_map_self by (simp add: comp_def)
  then show ?thesis using ys(1,3) that by blast
qed

lemma group_issues_of_group:
  assumes g: "(k, l) \<in> set (grid_groups out_tables)"
    and r: "group_issues to_int out_tables (k, l) = Inr (xs, ls)"
  shows "(length l \<le> 2 \<longrightarrow> xs = [] \<and> ls = [])
       \<and> (\<not> length l \<le> 2 \<longrightarrow>
            (\<exists>ys. mapM_e (instance_issues to_int out_tables (hd l)
                            (el_findall (wtag ''tr'') (out_tables ! hd l))) (tl l) = Inr ys
                \<and> xs = concat ys)
            \<and> ls = [(length l, take 60 k, take 40 (table_label (out_tables ! hd l)))])"
proof (intro conjI impI)
  assume "length l \<le> 2"
  then show "xs = []" "ls = []" using r by (simp_all add: group_issues_skipped)
next
  assume n: "\<not> length l \<le> 2"
  from n r obtain ys where ys:
    "mapM_e (instance_issues to_int out_tables (hd l)
              (el_findall (wtag ''tr'') (out_tables ! hd l))) (tl l) = Inr ys"
    "xs = concat (map (\<lambda>idx. if table_grid (out_tables ! idx) \<noteq> table_grid (out_tables ! hd l)
                              then [FamilyGridDiffers idx (table_grid (out_tables ! hd l))
                                      (table_grid (out_tables ! idx))]
                              else [])
                     l)
          @ concat ys"
    "ls = [(length l, take 60 k, take 40 (table_label (out_tables ! hd l)))]"
    by (rule group_issues_family_Inr)
  have "concat (map (\<lambda>idx. if table_grid (out_tables ! idx) \<noteq> table_grid (out_tables ! hd l)
                              then [FamilyGridDiffers idx (table_grid (out_tables ! hd l))
                                      (table_grid (out_tables ! idx))]
                              else [])
                     l) = []"
    using grid_groups_same_grid[OF g] by (simp add: concat_eq_Nil_conv)
  then have "xs = concat ys" using ys(2) by simp
  then show "\<exists>ys. mapM_e (instance_issues to_int out_tables (hd l)
                            (el_findall (wtag ''tr'') (out_tables ! hd l))) (tl l) = Inr ys
                \<and> xs = concat ys"
    using ys(1) by blast
  show "ls = [(length l, take 60 k, take 40 (table_label (out_tables ! hd l)))]"
    using ys(3) .
qed

lemma group_issues_member:
  assumes g: "(k, l) \<in> set (grid_groups out_tables)"
    and r: "group_issues to_int out_tables (k, l) = Inr (xs, ls)"
    and x: "x \<in> set xs"
  shows "\<exists>idx ri cur rf. idx \<in> set (tl l) \<and> x = FamilyCellCount idx ri cur (hd l) rf"
proof (cases "length l \<le> 2")
  case True
  then show ?thesis using group_issues_of_group[OF g r] x by simp
next
  case False
  then obtain ys where ys:
    "mapM_e (instance_issues to_int out_tables (hd l)
               (el_findall (wtag ''tr'') (out_tables ! hd l))) (tl l) = Inr ys"
    "xs = concat ys"
    using group_issues_of_group[OF g r] by blast
  have x': "x \<in> set (concat ys)" using x ys(2) by simp
  show ?thesis
  proof (rule mapM_e_concat_all[OF ys(1) x'])
    fix a r'
    assume a: "a \<in> set (tl l)"
      and "instance_issues to_int out_tables (hd l) (el_findall (wtag ''tr'') (out_tables ! hd l)) a
             = Inr r'" "x \<in> set r'"
    then obtain ri cur rf where "x = FamilyCellCount a ri cur (hd l) rf"
      using instance_issues_at by blast
    then show ?thesis using a by blast
  qed
qed

lemma for_loop_expansion_no_grid_differs:
  assumes "for_loop_expansion to_int out_tables = Inr (xs, ls)"
  shows "filter is_family_grid_differs xs = []"
proof (rule filter_empty_if)
  fix x assume x: "x \<in> set xs"
  from assms obtain rs where rs:
    "mapM_e (group_issues to_int out_tables) (grid_groups out_tables) = Inr rs"
    "xs = concat (map fst rs)"
    by (auto simp: for_loop_expansion_Inr)
  have x': "x \<in> set (concat (map fst rs))" using x rs(2) by simp
  show "\<not> is_family_grid_differs x"
  proof (rule mapM_e_concat_map_all[OF rs(1) x'])
    fix a r
    assume a: "a \<in> set (grid_groups out_tables)"
      and g: "group_issues to_int out_tables a = Inr r" and xr: "x \<in> set (fst r)"
    have "\<exists>idx ri cur rf. idx \<in> set (tl (snd a)) \<and> x = FamilyCellCount idx ri cur (hd (snd a)) rf"
      using group_issues_member[of "fst a" "snd a" out_tables to_int "fst r" "snd r" x] a g xr
      by simp
    then show "\<not> is_family_grid_differs x" by auto
  qed
qed

lemma concat_lines_list_all2:
  "list_all2 (\<lambda>g r. snd r = (if Q g then [h g] else [])) gs rs
   \<Longrightarrow> concat (map snd rs) = map h (filter Q gs)"
  by (induction gs rs rule: list_all2_induct) auto

lemma for_loop_expansion_lines:
  assumes "for_loop_expansion to_int out_tables = Inr (xs, ls)"
  shows "ls = map (\<lambda>g. (length (snd g), take 60 (fst g),
                        take 40 (table_label (out_tables ! hd (snd g)))))
                  (families out_tables)"
proof -
  from assms obtain rs where rs:
    "mapM_e (group_issues to_int out_tables) (grid_groups out_tables) = Inr rs"
    "ls = concat (map snd rs)"
    by (auto simp: for_loop_expansion_Inr)
  have l: "length rs = length (grid_groups out_tables)" using rs(1) by (rule mapM_e_length)
  have "list_all2 (\<lambda>g r. snd r = (if \<not> length (snd g) \<le> 2
                                  then [(length (snd g), take 60 (fst g),
                                         take 40 (table_label (out_tables ! hd (snd g))))]
                                  else []))
          (grid_groups out_tables) rs"
    unfolding list_all2_conv_all_nth
  proof (intro conjI allI impI)
    show "length (grid_groups out_tables) = length rs" using l by simp
  next
    fix j assume j: "j < length (grid_groups out_tables)"
    let ?g = "grid_groups out_tables ! j"
    have m: "(fst ?g, snd ?g) \<in> set (grid_groups out_tables)" using j by simp
    have "group_issues to_int out_tables (fst ?g, snd ?g) = Inr (fst (rs ! j), snd (rs ! j))"
      using mapM_e_nth[OF rs(1) j] by simp
    from group_issues_of_group[OF m this]
    show "snd (rs ! j) = (if \<not> length (snd ?g) \<le> 2
                          then [(length (snd ?g), take 60 (fst ?g),
                                 take 40 (table_label (out_tables ! hd (snd ?g))))]
                          else [])"
      by auto
  qed
  then have "concat (map snd rs) = map (\<lambda>g. (length (snd g), take 60 (fst g),
                        take 40 (table_label (out_tables ! hd (snd g)))))
                  (filter (\<lambda>g. \<not> length (snd g) \<le> 2) (grid_groups out_tables))"
    by (rule concat_lines_list_all2)
  then show ?thesis using rs(2) by (simp add: families_def)
qed

subsection \<open>Section 5: the issues of one table\<close>

lemma row_cell_widths_length:
  "row_cell_widths to_int row = Inr cw \<Longrightarrow> length cw = length (el_findall (wtag ''tc'') row)"
  unfolding row_cell_widths_def by (rule mapM_e_length)

lemma instance_issues_eq:
  assumes "instance_issues to_int out_tables ref_idx ref_rows idx = Inr xs"
  shows "xs = (if length (el_findall (wtag ''tr'') (out_tables ! idx)) \<noteq> length ref_rows then []
               else concat (map (\<lambda>ri.
                      if length (el_findall (wtag ''tc'') (ref_rows ! ri))
                           \<noteq> length (el_findall (wtag ''tc'')
                                        (el_findall (wtag ''tr'') (out_tables ! idx) ! ri))
                      then [FamilyCellCount idx ri
                              (length (el_findall (wtag ''tc'')
                                         (el_findall (wtag ''tr'') (out_tables ! idx) ! ri)))
                              ref_idx (length (el_findall (wtag ''tc'') (ref_rows ! ri)))]
                      else [])
                    [0..<length ref_rows]))"
proof (cases "length (el_findall (wtag ''tr'') (out_tables ! idx)) = length ref_rows")
  case False
  then show ?thesis using assms by (simp add: instance_issues_skipped)
next
  case True
  let ?rows = "el_findall (wtag ''tr'') (out_tables ! idx)"
  let ?f = "\<lambda>ri. if length (el_findall (wtag ''tc'') (ref_rows ! ri))
                           \<noteq> length (el_findall (wtag ''tc'') (?rows ! ri))
                      then [FamilyCellCount idx ri (length (el_findall (wtag ''tc'') (?rows ! ri)))
                              ref_idx (length (el_findall (wtag ''tc'') (ref_rows ! ri)))]
                      else []"
  from True assms obtain zs where zs:
    "mapM_e (\<lambda>ri.
        bind_e (row_cell_widths to_int (ref_rows ! ri)) (\<lambda>ref_cw.
        bind_e (row_cell_widths to_int (?rows ! ri)) (\<lambda>cur_cw.
          Inr (if length ref_cw \<noteq> length cur_cw
               then [FamilyCellCount idx ri (length cur_cw) ref_idx (length ref_cw)]
               else []))))
      [0..<length ref_rows] = Inr zs"
    "xs = concat zs"
    by (auto simp: instance_issues_compared bind_e_eq_Inr)
  have l: "length zs = length ref_rows" using zs(1) by (rule mapM_e_upt_length)
  have "zs = map ?f [0..<length ref_rows]"
  proof (rule nth_equalityI)
    show "length zs = length (map ?f [0..<length ref_rows])" using l by simp
  next
    fix ri assume "ri < length zs"
    then have r: "ri < length ref_rows" using l by simp
    from mapM_e_upt_nth[OF zs(1) r] obtain ref_cw cur_cw where w:
      "row_cell_widths to_int (ref_rows ! ri) = Inr ref_cw"
      "row_cell_widths to_int (?rows ! ri) = Inr cur_cw"
      "zs ! ri = (if length ref_cw \<noteq> length cur_cw
               then [FamilyCellCount idx ri (length cur_cw) ref_idx (length ref_cw)]
               else [])"
      unfolding bind_e_eq_Inr by (auto split del: if_split)
    have "zs ! ri = ?f ri"
      unfolding w(3) row_cell_widths_length[OF w(1)] row_cell_widths_length[OF w(2)] ..
    then show "zs ! ri = map ?f [0..<length ref_rows] ! ri" using r by simp
  qed
  then show ?thesis using zs(2) True by simp
qed

lemma grid_groups_distinct_members:
  assumes "(k, l) \<in> set (grid_groups out_tables)"
  shows "distinct l"
proof -
  have "l = filter (\<lambda>i. str_tuple (table_grid (out_tables ! i)) = k) [0..<length out_tables]"
    using grid_groups_member[OF assms] by blast
  then show ?thesis by (metis distinct_filter distinct_upt)
qed

lemma group_issues_table:
  assumes g: "(k, l) \<in> set (grid_groups out_tables)"
    and r: "group_issues to_int out_tables (k, l) = Inr (xs, ls)"
    and P: "\<And>x. P x \<Longrightarrow> issue_table x = Some idx"
  shows "(length l \<le> 2 \<or> idx \<notin> set (tl l) \<longrightarrow> filter P xs = [])
       \<and> (\<not> length l \<le> 2 \<and> idx \<in> set (tl l) \<longrightarrow>
            (\<exists>ys. instance_issues to_int out_tables (hd l)
                     (el_findall (wtag ''tr'') (out_tables ! hd l)) idx = Inr ys
                 \<and> filter P xs = filter P ys))"
proof (cases "length l \<le> 2")
  case True
  then show ?thesis using group_issues_of_group[OF g r] by simp
next
  case False
  then obtain ys where ys:
    "mapM_e (instance_issues to_int out_tables (hd l)
               (el_findall (wtag ''tr'') (out_tables ! hd l))) (tl l) = Inr ys"
    "xs = concat ys"
    using group_issues_of_group[OF g r] by blast
  have ly: "length ys = length (tl l)" using ys(1) by (rule mapM_e_length)
  have nth: "instance_issues to_int out_tables (hd l) (el_findall (wtag ''tr'') (out_tables ! hd l))
               (tl l ! j) = Inr (ys ! j)" if "j < length (tl l)" for j
    using mapM_e_nth[OF ys(1) that] .
  have d: "distinct (tl l)" using grid_groups_distinct_members[OF g] by (simp add: distinct_tl)
  have tab: "issue_table x = Some (tl l ! j)" if "j < length (tl l)" "x \<in> set (ys ! j)" for j x
    using instance_issues_at[OF nth[OF that(1)] that(2)] by auto
  show ?thesis
  proof (cases "idx \<in> set (tl l)")
    case out: False
    have "filter P xs = []"
    proof (rule filter_empty_if)
      fix x assume "x \<in> set xs"
      then obtain y where "y \<in> set ys" "x \<in> set y" using ys(2) by auto
      then obtain j where j: "j < length ys" "x \<in> set (ys ! j)"
        by (metis in_set_conv_nth)
      then have "issue_table x = Some (tl l ! j)" using tab ly by simp
      moreover have "tl l ! j \<noteq> idx" using out j(1) ly by (metis nth_mem)
      ultimately show "\<not> P x" using P[of x] by auto
    qed
    then show ?thesis using out by simp
  next
    case inn: True
    then obtain m where m: "m < length (tl l)" "tl l ! m = idx" by (auto simp: in_set_conv_nth)
    have other: "filter P (ys ! j) = []" if "j < length ys" "j \<noteq> m" for j
    proof (rule filter_empty_if)
      fix x assume "x \<in> set (ys ! j)"
      then have "issue_table x = Some (tl l ! j)" using tab that ly by simp
      moreover have "tl l ! j \<noteq> idx"
      proof
        assume "tl l ! j = idx"
        then have "tl l ! j = tl l ! m" using m(2) by simp
        moreover have "j < length (tl l)" using that(1) ly by simp
        ultimately have "j = m" using d m(1) nth_eq_iff_index_eq[of "tl l" j m] by blast
        then show False using that(2) by simp
      qed
      ultimately show "\<not> P x" using P[of x] by auto
    qed
    have "filter P xs = (if m < length ys then filter P (ys ! m) else [])"
      unfolding ys(2) by (rule filter_concat_nth) (rule other)
    then have "filter P xs = filter P (ys ! m)" using m ly by simp
    then show ?thesis using nth[OF m(1)] m(2) inn False by auto
  qed
qed

lemma for_loop_expansion_table:
  assumes f: "for_loop_expansion to_int out_tables = Inr (xs, ls)"
    and i: "idx < length out_tables"
    and P: "\<And>x. P x \<Longrightarrow> issue_table x = Some idx"
  shows "\<exists>ys ls'. group_issues to_int out_tables
                     (str_tuple (table_grid (out_tables ! idx)),
                      tables_with_grid out_tables (table_grid (out_tables ! idx))) = Inr (ys, ls')
           \<and> filter P xs = filter P ys"
proof -
  let ?k = "str_tuple (table_grid (out_tables ! idx))"
  let ?l = "tables_with_grid out_tables (table_grid (out_tables ! idx))"
  let ?G = "grid_groups out_tables"
  from f obtain rs where rs:
    "mapM_e (group_issues to_int out_tables) ?G = Inr rs" "xs = concat (map fst rs)"
    by (auto simp: for_loop_expansion_Inr)
  have lr: "length rs = length ?G" using rs(1) by (rule mapM_e_length)
  have nth: "group_issues to_int out_tables (?G ! j) = Inr (rs ! j)" if "j < length ?G" for j
    using mapM_e_nth[OF rs(1) that] .
  have "idx \<in> set ?l" using i by (simp add: tables_with_grid_def)
  then have ne: "?l \<noteq> []" by auto
  then have "map_of ?G ?k = Some ?l" by (simp add: map_of_grid_groups)
  then have "(?k, ?l) \<in> set ?G" by (rule map_of_SomeD)
  then obtain j0 where j0: "j0 < length ?G" "?G ! j0 = (?k, ?l)" by (auto simp: in_set_conv_nth)
  have other: "filter P (map fst rs ! j) = []" if "j < length (map fst rs)" "j \<noteq> j0" for j
  proof (rule filter_empty_if)
    fix x assume "x \<in> set (map fst rs ! j)"
    then have x: "x \<in> set (fst (rs ! j))" using that by simp
    have jl: "j < length ?G" using that lr by simp
    obtain k l where kl: "?G ! j = (k, l)" by (cases "?G ! j")
    have mem: "(k, l) \<in> set ?G" using jl kl by (metis nth_mem)
    have "group_issues to_int out_tables (k, l) = Inr (fst (rs ! j), snd (rs ! j))"
      using nth[OF jl] kl by simp
    from group_issues_member[OF mem this x] obtain idx' where
      idx': "idx' \<in> set (tl l)" "issue_table x = Some idx'"
      by auto
    have "idx' \<in> set l" using idx'(1) by (metis list.sel(2) list.set_sel(2))
    have "idx' \<noteq> idx"
    proof
      assume e: "idx' = idx"
      have "l = filter (\<lambda>i. str_tuple (table_grid (out_tables ! i)) = k) [0..<length out_tables]"
        using grid_groups_member[OF mem] by blast
      then have "str_tuple (table_grid (out_tables ! idx)) = k"
        using \<open>idx' \<in> set l\<close> e by (metis (mono_tags, lifting) mem_Collect_eq set_filter)
      then have "fst (?G ! j) = fst (?G ! j0)" using kl j0(2) by simp
      then have "j = j0"
        using grid_groups_distinct[of out_tables] jl j0(1)
          nth_eq_iff_index_eq[of "map fst ?G" j j0]
        by simp
      then show False using that(2) by simp
    qed
    then show "\<not> P x" using P[of x] idx'(2) by auto
  qed
  have "filter P xs = (if j0 < length (map fst rs) then filter P (map fst rs ! j0) else [])"
    unfolding rs(2) by (rule filter_concat_nth) (rule other)
  then have "filter P xs = filter P (fst (rs ! j0))" using j0(1) lr by simp
  moreover have "group_issues to_int out_tables (?k, ?l) = Inr (fst (rs ! j0), snd (rs ! j0))"
    using nth[OF j0(1)] j0(2) by simp
  ultimately show ?thesis by blast
qed

lemma cmd_compare_section5:
  assumes c: "cmd_compare to_int tpl_path out_path = Inr rep"
    and d: "document_xml out_path = Parsed out_root"
    and P: "\<And>x. P x \<Longrightarrow> issue_section x = 5"
  obtains issues5 where
    "for_loop_expansion to_int (el_iter (wtag ''tbl'') out_root) = Inr (issues5, r_instances rep)"
    "filter P (r_issues rep) = filter P issues5"
proof -
  from c P obtain out_root' issues5 instances where
    "document_xml out_path = Parsed out_root'"
    "for_loop_expansion to_int (el_iter (wtag ''tbl'') out_root') = Inr (issues5, instances)"
    "r_instances rep = instances"
    "filter P (r_issues rep) = filter P issues5"
    by (rule issues_of_section[where P = P and k = 5]) auto
  then show ?thesis using d that by auto
qed

lemma section5_small_group:
  assumes f: "for_loop_expansion to_int out_tables = Inr (xs, ls)"
    and i: "idx < length out_tables"
    and s: "length (tables_with_grid out_tables (table_grid (out_tables ! idx))) \<le> 2"
  shows "filter (at_table 5 idx) xs = []"
proof -
  let ?k = "str_tuple (table_grid (out_tables ! idx))"
  let ?l = "tables_with_grid out_tables (table_grid (out_tables ! idx))"
  from for_loop_expansion_table[OF f i, of "at_table 5 idx"] obtain ys ls' where ys:
    "group_issues to_int out_tables (?k, ?l) = Inr (ys, ls')"
    "filter (at_table 5 idx) xs = filter (at_table 5 idx) ys"
    by (auto simp: at_table_def)
  have "ys = []" using ys(1) s by (simp add: group_issues_skipped)
  then show ?thesis using ys(2) by simp
qed

lemma section5_member:
  assumes f: "for_loop_expansion to_int out_tables = Inr (xs, ls)"
    and fam: "fam \<in> set (families out_tables)"
  shows "(idx \<in> set (tl (snd fam)) \<longrightarrow>
           filter (at_table 5 idx) xs =
             (if length (el_findall (wtag ''tr'') (out_tables ! idx))
                   \<noteq> length (el_findall (wtag ''tr'') (out_tables ! hd (snd fam))) then []
              else concat (map (\<lambda>ri.
                     if length (el_findall (wtag ''tc'')
                                  (el_findall (wtag ''tr'') (out_tables ! hd (snd fam)) ! ri))
                          \<noteq> length (el_findall (wtag ''tc'')
                                       (el_findall (wtag ''tr'') (out_tables ! idx) ! ri))
                     then [FamilyCellCount idx ri
                             (length (el_findall (wtag ''tc'')
                                        (el_findall (wtag ''tr'') (out_tables ! idx) ! ri)))
                             (hd (snd fam))
                             (length (el_findall (wtag ''tc'')
                                        (el_findall (wtag ''tr'') (out_tables ! hd (snd fam)) ! ri)))]
                     else [])
                   [0..<length (el_findall (wtag ''tr'') (out_tables ! hd (snd fam)))])))
       \<and> filter (at_table 5 (hd (snd fam))) xs = []"
proof -
  obtain k l where kl: "fam = (k, l)" by (cases fam)
  have g: "(k, l) \<in> set (grid_groups out_tables)" and n: "\<not> length l \<le> 2"
    using fam kl by (auto simp: families_def)
  have ne: "l \<noteq> []" using n by auto
  have dl: "distinct l" using g by (rule grid_groups_distinct_members)
  have grp: "\<exists>ys ls'. group_issues to_int out_tables (k, l) = Inr (ys, ls')
               \<and> filter (at_table 5 j) xs = filter (at_table 5 j) ys" if "j \<in> set l" for j
  proof -
    have j: "j \<in> set (snd fam)" using that kl by simp
    have m: "j < length out_tables"
      "fam = (str_tuple (table_grid (out_tables ! j)),
              tables_with_grid out_tables (table_grid (out_tables ! j)))"
      using families_member[OF fam j] by simp_all
    from for_loop_expansion_table[OF f m(1), of "at_table 5 j"] show ?thesis
      using m(2) kl by (auto simp: at_table_def)
  qed
  show ?thesis
  proof (intro conjI impI)
    assume "idx \<in> set (tl (snd fam))"
    then have t: "idx \<in> set (tl l)" using kl by simp
    then have "idx \<in> set l" by (metis list.sel(2) list.set_sel(2))
    from grp[OF this] obtain ys ls' where ys:
      "group_issues to_int out_tables (k, l) = Inr (ys, ls')"
      "filter (at_table 5 idx) xs = filter (at_table 5 idx) ys"
      by blast
    from group_issues_table[OF g ys(1), of "at_table 5 idx" idx] n t obtain zs where zs:
      "instance_issues to_int out_tables (hd l) (el_findall (wtag ''tr'') (out_tables ! hd l)) idx
         = Inr zs"
      "filter (at_table 5 idx) ys = filter (at_table 5 idx) zs"
      by (auto simp: at_table_def)
    have "filter (at_table 5 idx) zs = zs"
    proof (rule filter_all)
      fix x assume "x \<in> set zs"
      then obtain ri cur rf where "x = FamilyCellCount idx ri cur (hd l) rf"
        using instance_issues_at[OF zs(1)] by blast
      then show "at_table 5 idx x" by (simp add: at_table_def)
    qed
    then have fz: "filter (at_table 5 idx) xs = zs" using ys(2) zs(2) by simp
    show "filter (at_table 5 idx) xs =
             (if length (el_findall (wtag ''tr'') (out_tables ! idx))
                   \<noteq> length (el_findall (wtag ''tr'') (out_tables ! hd (snd fam))) then []
              else concat (map (\<lambda>ri.
                     if length (el_findall (wtag ''tc'')
                                  (el_findall (wtag ''tr'') (out_tables ! hd (snd fam)) ! ri))
                          \<noteq> length (el_findall (wtag ''tc'')
                                       (el_findall (wtag ''tr'') (out_tables ! idx) ! ri))
                     then [FamilyCellCount idx ri
                             (length (el_findall (wtag ''tc'')
                                        (el_findall (wtag ''tr'') (out_tables ! idx) ! ri)))
                             (hd (snd fam))
                             (length (el_findall (wtag ''tc'')
                                        (el_findall (wtag ''tr'') (out_tables ! hd (snd fam)) ! ri)))]
                     else [])
                   [0..<length (el_findall (wtag ''tr'') (out_tables ! hd (snd fam)))]))"
      unfolding kl snd_conv fz by (rule instance_issues_eq[OF zs(1)])
  next
    have h: "hd l \<in> set l" using ne by simp
    have "hd l \<notin> set (tl l)" using dl ne by (cases l) auto
    from grp[OF h] obtain ys ls' where ys:
      "group_issues to_int out_tables (k, l) = Inr (ys, ls')"
      "filter (at_table 5 (hd l)) xs = filter (at_table 5 (hd l)) ys"
      by blast
    have "filter (at_table 5 (hd l)) ys = []"
      using group_issues_table[OF g ys(1), of "at_table 5 (hd l)" "hd l"] \<open>hd l \<notin> set (tl l)\<close>
      by (auto simp: at_table_def)
    then show "filter (at_table 5 (hd (snd fam))) xs = []" using ys(2) kl by simp
  qed
qed

lemma family_out_report:
  "cmd_compare py_int (wdoc []) (wdoc family_out) =
     Inr \<lparr> r_tables = (0, 3), r_paragraphs = (0, 6), r_commands = (0, 0), r_matched = 0,
           r_instances = [(3, str_tuple [''100'', ''200''], ''A | B'')],
           r_row_issues_count = 0,
           r_issues = [FamilyCellCount 2 0 1 0 2] \<rparr>"
  by code_simp

lemma family_out_groups:
  "grid_groups (el_iter (wtag ''tbl'') (wroot family_out)) = [(str_tuple [''100'', ''200''], [0, 1, 2])]"
  by code_simp

lemma family_out_shape:
  "map (\<lambda>t. map (\<lambda>r. length (el_findall (wtag ''tc'') r)) (el_findall (wtag ''tr'') t))
       (el_iter (wtag ''tbl'') (wroot family_out)) = [[2], [1, 2], [1]]"
  by code_simp

lemma pair_out_report:
  "cmd_compare py_int (wdoc []) (wdoc pair_out) =
     Inr \<lparr> r_tables = (0, 2), r_paragraphs = (0, 2), r_commands = (0, 0), r_matched = 0,
           r_instances = [], r_row_issues_count = 0, r_issues = [] \<rparr>"
  by code_simp

lemma pair_out_groups:
  "grid_groups (el_iter (wtag ''tbl'') (wroot pair_out)) = [(str_tuple [''100''], [0, 1])]"
  by code_simp

section \<open>The claims\<close>

text \<open>
  C2. The type of every command that \<open>find_commands\<close> returns is read off the stripped
  text between the braces of a match, in this order of priority: it begins with \<open>FOR \<close>,
  then it begins with \<open>END-FOR\<close>, then it begins with \<open>IF \<close>, then it is \<open>END-IF\<close>,
  then it begins with \<open>INS \<close>, and otherwise it is a field; \<open>{FORfoo}\<close>, with no blank after
  \<open>FOR\<close>, is a field.
\<close>

theorem command_classification:
  "(\<forall>path cmds. find_commands path = Inr cmds \<longrightarrow>
      (\<exists>paras. extract_paras path = Inr paras
         \<and> map c_raw cmds = concat (map (\<lambda>p. map strip (finditer (p_text p))) paras))
    \<and> (\<forall>c \<in> set cmds.
         c_type c =
           (if \<exists>r. c_raw c = ''FOR '' @ r then ''FOR''
            else if \<exists>r. c_raw c = ''END-FOR'' @ r then ''END-FOR''
            else if \<exists>r. c_raw c = ''IF '' @ r then ''IF''
            else if c_raw c = ''END-IF'' then ''END-IF''
            else if \<exists>r. c_raw c = ''INS '' @ r then ''INS''
            else ''field'')))
   \<and> find_commands (wdoc [wpara ''{FORfoo}'']) =
       Inr [\<lparr> c_para = 0, c_tbl = False, c_raw = ''FORfoo'', c_type = ''field'' \<rparr>]"
proof (intro conjI allI impI ballI)
  fix path cmds
  assume f: "find_commands path = Inr cmds"
  then obtain paras where p: "extract_paras path = Inr paras"
    "cmds = concat (map (\<lambda>p. map (\<lambda>g. \<lparr> c_para = p_i p, c_tbl = p_tbl p,
                                          c_raw = strip g, c_type = command_type (strip g) \<rparr>)
                                  (finditer (p_text p))) paras)"
    by (auto simp: find_commands_Inr)
  have "map c_raw cmds = concat (map (\<lambda>p. map strip (finditer (p_text p))) paras)"
    unfolding p(2) by (simp add: map_concat comp_def)
  with p(1) show "\<exists>paras. extract_paras path = Inr paras
         \<and> map c_raw cmds = concat (map (\<lambda>p. map strip (finditer (p_text p))) paras)"
    by blast
next
  fix path cmds c
  assume f: "find_commands path = Inr cmds" and c: "c \<in> set cmds"
  have "c_type c = command_type (c_raw c)" using f c by (rule find_commands_type)
  then show "c_type c =
           (if \<exists>r. c_raw c = ''FOR '' @ r then ''FOR''
            else if \<exists>r. c_raw c = ''END-FOR'' @ r then ''END-FOR''
            else if \<exists>r. c_raw c = ''IF '' @ r then ''IF''
            else if c_raw c = ''END-IF'' then ''END-IF''
            else if \<exists>r. c_raw c = ''INS '' @ r then ''INS''
            else ''field'')"
    unfolding command_type_def startswith_iff by simp
next
  show "find_commands (wdoc [wpara ''{FORfoo}'']) =
       Inr [\<lparr> c_para = 0, c_tbl = False, c_raw = ''FORfoo'', c_type = ''field'' \<rparr>]"
    by code_simp
qed

theorem command_classification_witness:
  "find_commands (wdoc [wpara ''{FOR x IN y}{END-FOR x}{END-IF}{IF cond}{INS x}{field_name}{FORfoo}''])
     = Inr [\<lparr> c_para = 0, c_tbl = False, c_raw = ''FOR x IN y'', c_type = ''FOR'' \<rparr>,
            \<lparr> c_para = 0, c_tbl = False, c_raw = ''END-FOR x'', c_type = ''END-FOR'' \<rparr>,
            \<lparr> c_para = 0, c_tbl = False, c_raw = ''END-IF'', c_type = ''END-IF'' \<rparr>,
            \<lparr> c_para = 0, c_tbl = False, c_raw = ''IF cond'', c_type = ''IF'' \<rparr>,
            \<lparr> c_para = 0, c_tbl = False, c_raw = ''INS x'', c_type = ''INS'' \<rparr>,
            \<lparr> c_para = 0, c_tbl = False, c_raw = ''field_name'', c_type = ''field'' \<rparr>,
            \<lparr> c_para = 0, c_tbl = False, c_raw = ''FORfoo'', c_type = ''field'' \<rparr>]
   \<and> c_type \<lparr> c_para = 0, c_tbl = False, c_raw = ''END-FOR x'', c_type = ''END-FOR'' \<rparr> =
       (if \<exists>r. ''END-FOR x'' = ''FOR '' @ r then ''FOR''
        else if \<exists>r. ''END-FOR x'' = ''END-FOR'' @ r then ''END-FOR''
        else if \<exists>r. ''END-FOR x'' = ''IF '' @ r then ''IF''
        else if ''END-FOR x'' = ''END-IF'' then ''END-IF''
        else if \<exists>r. ''END-FOR x'' = ''INS '' @ r then ''INS''
        else ''field'')"
proof -
  have e: "find_commands (wdoc [wpara ''{FOR x IN y}{END-FOR x}{END-IF}{IF cond}{INS x}{field_name}{FORfoo}''])
     = Inr [\<lparr> c_para = 0, c_tbl = False, c_raw = ''FOR x IN y'', c_type = ''FOR'' \<rparr>,
            \<lparr> c_para = 0, c_tbl = False, c_raw = ''END-FOR x'', c_type = ''END-FOR'' \<rparr>,
            \<lparr> c_para = 0, c_tbl = False, c_raw = ''END-IF'', c_type = ''END-IF'' \<rparr>,
            \<lparr> c_para = 0, c_tbl = False, c_raw = ''IF cond'', c_type = ''IF'' \<rparr>,
            \<lparr> c_para = 0, c_tbl = False, c_raw = ''INS x'', c_type = ''INS'' \<rparr>,
            \<lparr> c_para = 0, c_tbl = False, c_raw = ''field_name'', c_type = ''field'' \<rparr>,
            \<lparr> c_para = 0, c_tbl = False, c_raw = ''FORfoo'', c_type = ''field'' \<rparr>]"
    by code_simp
  from command_classification e
  have "\<forall>c \<in> set [\<lparr> c_para = 0, c_tbl = False, c_raw = ''FOR x IN y'', c_type = ''FOR'' \<rparr>,
            \<lparr> c_para = 0, c_tbl = False, c_raw = ''END-FOR x'', c_type = ''END-FOR'' \<rparr>,
            \<lparr> c_para = 0, c_tbl = False, c_raw = ''END-IF'', c_type = ''END-IF'' \<rparr>,
            \<lparr> c_para = 0, c_tbl = False, c_raw = ''IF cond'', c_type = ''IF'' \<rparr>,
            \<lparr> c_para = 0, c_tbl = False, c_raw = ''INS x'', c_type = ''INS'' \<rparr>,
            \<lparr> c_para = 0, c_tbl = False, c_raw = ''field_name'', c_type = ''field'' \<rparr>,
            \<lparr> c_para = 0, c_tbl = False, c_raw = ''FORfoo'', c_type = ''field'' \<rparr>].
         c_type c =
           (if \<exists>r. c_raw c = ''FOR '' @ r then ''FOR''
            else if \<exists>r. c_raw c = ''END-FOR'' @ r then ''END-FOR''
            else if \<exists>r. c_raw c = ''IF '' @ r then ''IF''
            else if c_raw c = ''END-IF'' then ''END-IF''
            else if \<exists>r. c_raw c = ''INS '' @ r then ''INS''
            else ''field'')"
    by blast
  then have "c_type \<lparr> c_para = 0, c_tbl = False, c_raw = ''END-FOR x'', c_type = ''END-FOR'' \<rparr> =
       (if \<exists>r. c_raw \<lparr> c_para = 0, c_tbl = False, c_raw = ''END-FOR x'', c_type = ''END-FOR'' \<rparr> = ''FOR '' @ r then ''FOR''
        else if \<exists>r. c_raw \<lparr> c_para = 0, c_tbl = False, c_raw = ''END-FOR x'', c_type = ''END-FOR'' \<rparr> = ''END-FOR'' @ r then ''END-FOR''
        else if \<exists>r. c_raw \<lparr> c_para = 0, c_tbl = False, c_raw = ''END-FOR x'', c_type = ''END-FOR'' \<rparr> = ''IF '' @ r then ''IF''
        else if c_raw \<lparr> c_para = 0, c_tbl = False, c_raw = ''END-FOR x'', c_type = ''END-FOR'' \<rparr> = ''END-IF'' then ''END-IF''
        else if \<exists>r. c_raw \<lparr> c_para = 0, c_tbl = False, c_raw = ''END-FOR x'', c_type = ''END-FOR'' \<rparr> = ''INS '' @ r then ''INS''
        else ''field'')"
    by (simp del: command.simps)
  then show ?thesis using e by simp
qed

lemma residual_commands_residual:
  "filter is_residual (residual_commands out_cmds) =
     map (\<lambda>c. ResidualCommand (c_raw c)) (filter (\<lambda>c. c_type c \<in> set control_types) out_cmds)"
  by (simp add: residual_commands_def filter_map comp_def)

lemma residual_commands_unresolved:
  "filter is_unresolved (residual_commands out_cmds) =
     map (\<lambda>c. UnresolvedField (c_raw c))
         (filter (\<lambda>c. c_type c = ''field'' \<and> startswith (c_raw c) ''$'') out_cmds)"
  by (simp add: residual_commands_def filter_map comp_def)

text \<open>
  C3. Of the commands found in the output, those whose type is \<open>FOR\<close>, \<open>END-FOR\<close>, \<open>IF\<close>,
  \<open>END-IF\<close> or \<open>INS\<close>, and only those, each give one residual-command issue, and the
  fields whose text begins with \<open>$\<close>, and only those, each give one unresolved-field
  issue, in the order of the commands. An output that holds exactly \<open>{$module.code}\<close>
  gives exactly one issue, the unresolved field \<open>$module.code\<close>.
\<close>

theorem command_resolution:
  "(\<forall>to_int tpl_path out_path rep.
      cmd_compare to_int tpl_path out_path = Inr rep \<longrightarrow>
      (\<exists>out_cmds. find_commands out_path = Inr out_cmds
         \<and> filter is_residual (r_issues rep) =
             map (\<lambda>c. ResidualCommand (c_raw c))
                 (filter (\<lambda>c. c_type c \<in> {''FOR'', ''END-FOR'', ''IF'', ''END-IF'', ''INS''})
                         out_cmds)
         \<and> filter is_unresolved (r_issues rep) =
             map (\<lambda>c. UnresolvedField (c_raw c))
                 (filter (\<lambda>c. c_type c = ''field'' \<and> (\<exists>r. c_raw c = ''$'' @ r)) out_cmds)))
   \<and> cmd_compare py_int (wdoc []) (wdoc [wpara ''{$module.code}'']) =
       Inr \<lparr> r_tables = (0, 0), r_paragraphs = (0, 1), r_commands = (0, 1), r_matched = 0,
             r_instances = [], r_row_issues_count = 0,
             r_issues = [UnresolvedField ''$module.code''] \<rparr>"
proof (intro conjI allI impI)
  fix to_int tpl_path out_path rep
  assume c: "cmd_compare to_int tpl_path out_path = Inr rep"
  from c obtain out_cmds where
    f: "find_commands out_path = Inr out_cmds"
    and r: "filter is_residual (r_issues rep) = filter is_residual (residual_commands out_cmds)"
    by (rule issues_of_section[where P = is_residual and k = 2])
       (auto elim: is_residual.elims)
  from c obtain out_cmds' where
    f': "find_commands out_path = Inr out_cmds'"
    and u: "filter is_unresolved (r_issues rep) = filter is_unresolved (residual_commands out_cmds')"
    by (rule issues_of_section[where P = is_unresolved and k = 2])
       (auto elim: is_unresolved.elims)
  have e: "out_cmds' = out_cmds" using f f' by simp
  have s: "set control_types = {''FOR'', ''END-FOR'', ''IF'', ''END-IF'', ''INS''}"
    by (simp add: control_types_def)
  show "\<exists>out_cmds. find_commands out_path = Inr out_cmds
         \<and> filter is_residual (r_issues rep) =
             map (\<lambda>c. ResidualCommand (c_raw c))
                 (filter (\<lambda>c. c_type c \<in> {''FOR'', ''END-FOR'', ''IF'', ''END-IF'', ''INS''})
                         out_cmds)
         \<and> filter is_unresolved (r_issues rep) =
             map (\<lambda>c. UnresolvedField (c_raw c))
                 (filter (\<lambda>c. c_type c = ''field'' \<and> (\<exists>r. c_raw c = ''$'' @ r)) out_cmds)"
    using f r u e residual_commands_residual[of out_cmds] residual_commands_unresolved[of out_cmds]
    unfolding s startswith_iff by auto
next
  show "cmd_compare py_int (wdoc []) (wdoc [wpara ''{$module.code}'']) =
       Inr \<lparr> r_tables = (0, 0), r_paragraphs = (0, 1), r_commands = (0, 1), r_matched = 0,
             r_instances = [], r_row_issues_count = 0,
             r_issues = [UnresolvedField ''$module.code''] \<rparr>"
    by code_simp
qed

theorem command_resolution_witness:
  "cmd_compare py_int (wdoc []) (wdoc [wpara ''{END-FOR m} x {$a} {b} {IF c}'']) =
     Inr \<lparr> r_tables = (0, 0), r_paragraphs = (0, 1), r_commands = (0, 4), r_matched = 0,
           r_instances = [], r_row_issues_count = 0,
           r_issues = [ResidualCommand ''END-FOR m'', ResidualCommand ''IF c'',
                       UnresolvedField ''$a''] \<rparr>
   \<and> (\<exists>out_cmds. find_commands (wdoc [wpara ''{END-FOR m} x {$a} {b} {IF c}'']) = Inr out_cmds
         \<and> [ResidualCommand ''END-FOR m'', ResidualCommand ''IF c''] =
             map (\<lambda>c. ResidualCommand (c_raw c))
                 (filter (\<lambda>c. c_type c \<in> {''FOR'', ''END-FOR'', ''IF'', ''END-IF'', ''INS''})
                         out_cmds)
         \<and> [UnresolvedField ''$a''] =
             map (\<lambda>c. UnresolvedField (c_raw c))
                 (filter (\<lambda>c. c_type c = ''field'' \<and> (\<exists>r. c_raw c = ''$'' @ r)) out_cmds))"
proof -
  have e: "cmd_compare py_int (wdoc []) (wdoc [wpara ''{END-FOR m} x {$a} {b} {IF c}'']) =
     Inr \<lparr> r_tables = (0, 0), r_paragraphs = (0, 1), r_commands = (0, 4), r_matched = 0,
           r_instances = [], r_row_issues_count = 0,
           r_issues = [ResidualCommand ''END-FOR m'', ResidualCommand ''IF c'',
                       UnresolvedField ''$a''] \<rparr>"
    by code_simp
  show ?thesis
    using command_resolution e by fastforce
qed

text \<open>
  C1, as the code has it. When a document is compared with itself, its commands are all
  fields that do not begin with \<open>$\<close>, and no two of its tables have the same label, then
  the comparison reports no issue of section 4 (no grid, table-width, cell-count, cell-width
  or span mismatch) and no issue of section 2 (no residual command and no unresolved
  field). Without the condition on the labels this fails: a table is compared with the
  first table that has its label, which need not be itself.
\<close>

theorem self_comparison:
  "\<forall>to_int path rep root cmds.
      cmd_compare to_int path path = Inr rep \<longrightarrow>
      document_xml path = Parsed root \<longrightarrow>
      find_commands path = Inr cmds \<longrightarrow>
      (\<forall>c \<in> set cmds. c_type c = ''field'' \<and> \<not> (\<exists>r. c_raw c = ''$'' @ r)) \<longrightarrow>
      distinct (map table_label (el_iter (wtag ''tbl'') root)) \<longrightarrow>
        filter (\<lambda>x. issue_section x = 4) (r_issues rep) = []
      \<and> filter (\<lambda>x. issue_section x = 2) (r_issues rep) = []"
proof (intro allI impI)
  fix to_int path rep root cmds
  assume c: "cmd_compare to_int path path = Inr rep"
    and d: "document_xml path = Parsed root"
    and f: "find_commands path = Inr cmds"
    and fld: "\<forall>c \<in> set cmds. c_type c = ''field'' \<and> \<not> (\<exists>r. c_raw c = ''$'' @ r)"
    and dl: "distinct (map table_label (el_iter (wtag ''tbl'') root))"
  from c obtain tpl_root out_root matched issues4 where
    "document_xml path = Parsed tpl_root" "document_xml path = Parsed out_root"
    "table_grid_comparison to_int (el_iter (wtag ''tbl'') tpl_root) (el_iter (wtag ''tbl'') out_root)
       = Inr (matched, issues4)"
    "filter (\<lambda>x. issue_section x = 4) (r_issues rep) = filter (\<lambda>x. issue_section x = 4) issues4"
    by (rule issues_of_section[where P = "\<lambda>x. issue_section x = 4" and k = 4]) auto
  then have g: "table_grid_comparison to_int (el_iter (wtag ''tbl'') root)
               (el_iter (wtag ''tbl'') root) = Inr (matched, issues4)"
    and f4: "filter (\<lambda>x. issue_section x = 4) (r_issues rep) = filter (\<lambda>x. issue_section x = 4) issues4"
    using d by simp_all
  have "issues4 = []" using dl g by (rule table_grid_comparison_self)
  then have a: "filter (\<lambda>x. issue_section x = 4) (r_issues rep) = []" using f4 by simp
  from c obtain out_cmds where
    "find_commands path = Inr out_cmds"
    "filter (\<lambda>x. issue_section x = 2) (r_issues rep)
       = filter (\<lambda>x. issue_section x = 2) (residual_commands out_cmds)"
    by (rule issues_of_section[where P = "\<lambda>x. issue_section x = 2" and k = 2]) auto
  then have f2: "filter (\<lambda>x. issue_section x = 2) (r_issues rep)
       = filter (\<lambda>x. issue_section x = 2) (residual_commands cmds)"
    using f by simp
  have "residual_commands cmds = []"
    using fld by (intro residual_commands_fields) (simp add: startswith_iff)
  then have b: "filter (\<lambda>x. issue_section x = 2) (r_issues rep) = []" using f2 by simp
  show "filter (\<lambda>x. issue_section x = 4) (r_issues rep) = []
      \<and> filter (\<lambda>x. issue_section x = 2) (r_issues rep) = []"
    using a b by simp
qed

theorem self_comparison_witness:
  "cmd_compare py_int (wdoc plain) (wdoc plain) =
     Inr \<lparr> r_tables = (2, 2), r_paragraphs = (4, 4), r_commands = (1, 1), r_matched = 2,
           r_instances = [], r_row_issues_count = 0, r_issues = [] \<rparr>
   \<and> document_xml (wdoc plain) = Parsed (wroot plain)
   \<and> find_commands (wdoc plain) =
       Inr [\<lparr> c_para = 0, c_tbl = False, c_raw = ''name'', c_type = ''field'' \<rparr>]
   \<and> map table_label (el_iter (wtag ''tbl'') (wroot plain)) = [''A | B'', ''C'']
   \<and> filter (\<lambda>x. issue_section x = 4) [] = []"
proof -
  let ?rep = "\<lparr> r_tables = (2, 2), r_paragraphs = (4, 4), r_commands = (1, 1), r_matched = 2,
           r_instances = [], r_row_issues_count = 0, r_issues = [] \<rparr>"
  have e: "cmd_compare py_int (wdoc plain) (wdoc plain) = Inr ?rep" by code_simp
  have d: "document_xml (wdoc plain) = Parsed (wroot plain)" by (simp add: wdoc_def)
  have f: "find_commands (wdoc plain) =
       Inr [\<lparr> c_para = 0, c_tbl = False, c_raw = ''name'', c_type = ''field'' \<rparr>]"
    by code_simp
  have l: "map table_label (el_iter (wtag ''tbl'') (wroot plain)) = [''A | B'', ''C'']"
    by code_simp
  have dl: "distinct (map table_label (el_iter (wtag ''tbl'') (wroot plain)))"
    unfolding l by simp
  have "filter (\<lambda>x. issue_section x = 4) (r_issues ?rep) = []"
    by (rule self_comparison[rule_format, OF e d f _ dl, THEN conjunct1]) simp
  then show ?thesis using e d f l by simp
qed

theorem self_comparison_counterexample:
  "cmd_compare py_int (wdoc twins) (wdoc twins) =
     Inr \<lparr> r_tables = (2, 2), r_paragraphs = (2, 2), r_commands = (0, 0), r_matched = 2,
           r_instances = [], r_row_issues_count = 0,
           r_issues = [GridMismatch 1 ''A'' [''200''] [''100'']] \<rparr>
   \<and> find_commands (wdoc twins) = Inr []"
  by code_simp

text \<open>
  C4, as the code has it. For a template table that is not skipped and the output table
  it is matched with, a row of the overlapping range whose two cell counts differ gives
  exactly one issue, the row-level cell-count issue, and no per-cell issue; a row whose
  cell counts agree gives only the width and span issues of its cells. The rows beyond
  the overlapping range give no issue at all: the code reports no difference in the
  number of rows, as the template of two rows against the output of one row shows.
\<close>

theorem row_comparison:
  "\<forall>to_int tpl_path out_path rep tpl_root out_root ti oi ri.
      cmd_compare to_int tpl_path out_path = Inr rep \<longrightarrow>
      document_xml tpl_path = Parsed tpl_root \<longrightarrow>
      document_xml out_path = Parsed out_root \<longrightarrow>
      ti < length (el_iter (wtag ''tbl'') tpl_root) \<longrightarrow>
      \<not> contains ''{FOR'' (table_label (el_iter (wtag ''tbl'') tpl_root ! ti)) \<longrightarrow>
      \<not> contains ''{$'' (table_label (el_iter (wtag ''tbl'') tpl_root ! ti)) \<longrightarrow>
      find_table_in_output (el_iter (wtag ''tbl'') out_root)
        (table_label (el_iter (wtag ''tbl'') tpl_root ! ti))
        (table_grid (el_iter (wtag ''tbl'') tpl_root ! ti)) = Some oi \<longrightarrow>
      (ri < min (length (el_findall (wtag ''tr'') (el_iter (wtag ''tbl'') tpl_root ! ti)))
                (length (el_findall (wtag ''tr'') (el_iter (wtag ''tbl'') out_root ! oi))) \<longrightarrow>
         (\<exists>tpl_cw out_cw.
            row_cell_widths to_int
              (el_findall (wtag ''tr'') (el_iter (wtag ''tbl'') tpl_root ! ti) ! ri) = Inr tpl_cw
          \<and> row_cell_widths to_int
              (el_findall (wtag ''tr'') (el_iter (wtag ''tbl'') out_root ! oi) ! ri) = Inr out_cw
          \<and> filter (at_row 4 ti ri) (r_issues rep) =
              (if length tpl_cw \<noteq> length out_cw
               then [CellCount ti ri (length tpl_cw) (length out_cw)]
               else concat (map (\<lambda>ci. cell_issues ti ri ci (tpl_cw ! ci) (out_cw ! ci))
                                [0..<length tpl_cw]))))
    \<and> (\<not> ri < min (length (el_findall (wtag ''tr'') (el_iter (wtag ''tbl'') tpl_root ! ti)))
                    (length (el_findall (wtag ''tr'') (el_iter (wtag ''tbl'') out_root ! oi))) \<longrightarrow>
         filter (at_row 4 ti ri) (r_issues rep) = [])"
proof (intro allI impI)
  fix to_int tpl_path out_path rep tpl_root out_root ti oi ri
  assume c: "cmd_compare to_int tpl_path out_path = Inr rep"
    and d: "document_xml tpl_path = Parsed tpl_root" "document_xml out_path = Parsed out_root"
    and i: "ti < length (el_iter (wtag ''tbl'') tpl_root)"
    and ns: "\<not> contains ''{FOR'' (table_label (el_iter (wtag ''tbl'') tpl_root ! ti))"
      "\<not> contains ''{$'' (table_label (el_iter (wtag ''tbl'') tpl_root ! ti))"
    and m: "find_table_in_output (el_iter (wtag ''tbl'') out_root)
        (table_label (el_iter (wtag ''tbl'') tpl_root ! ti))
        (table_grid (el_iter (wtag ''tbl'') tpl_root ! ti)) = Some oi"
  from c obtain tpl_root' out_root' matched issues4 where
    "document_xml tpl_path = Parsed tpl_root'" "document_xml out_path = Parsed out_root'"
    "table_grid_comparison to_int (el_iter (wtag ''tbl'') tpl_root') (el_iter (wtag ''tbl'') out_root')
       = Inr (matched, issues4)"
    "filter (at_row 4 ti ri) (r_issues rep) = filter (at_row 4 ti ri) issues4"
    by (rule issues_of_section[where P = "at_row 4 ti ri" and k = 4]) (auto simp: at_row_def)
  then have g: "table_grid_comparison to_int (el_iter (wtag ''tbl'') tpl_root)
               (el_iter (wtag ''tbl'') out_root) = Inr (matched, issues4)"
    and f: "filter (at_row 4 ti ri) (r_issues rep) = filter (at_row 4 ti ri) issues4"
    using d by simp_all
  from g i obtain b ys where t:
    "table_issues to_int (el_iter (wtag ''tbl'') out_root) ti (el_iter (wtag ''tbl'') tpl_root ! ti)
       = Inr (b, ys)"
    and f': "filter (at_row 4 ti ri) issues4 = filter (at_row 4 ti ri) ys"
    by (rule table_grid_comparison_table[where P = "at_row 4 ti ri"]) (auto simp: at_row_def)
  have e: "filter (at_row 4 ti ri) (r_issues rep) = filter (at_row 4 ti ri) ys"
    using f f' by simp
  show "(ri < min (length (el_findall (wtag ''tr'') (el_iter (wtag ''tbl'') tpl_root ! ti)))
                (length (el_findall (wtag ''tr'') (el_iter (wtag ''tbl'') out_root ! oi))) \<longrightarrow>
         (\<exists>tpl_cw out_cw.
            row_cell_widths to_int
              (el_findall (wtag ''tr'') (el_iter (wtag ''tbl'') tpl_root ! ti) ! ri) = Inr tpl_cw
          \<and> row_cell_widths to_int
              (el_findall (wtag ''tr'') (el_iter (wtag ''tbl'') out_root ! oi) ! ri) = Inr out_cw
          \<and> filter (at_row 4 ti ri) (r_issues rep) =
              (if length tpl_cw \<noteq> length out_cw
               then [CellCount ti ri (length tpl_cw) (length out_cw)]
               else concat (map (\<lambda>ci. cell_issues ti ri ci (tpl_cw ! ci) (out_cw ! ci))
                                [0..<length tpl_cw]))))
    \<and> (\<not> ri < min (length (el_findall (wtag ''tr'') (el_iter (wtag ''tbl'') tpl_root ! ti)))
                    (length (el_findall (wtag ''tr'') (el_iter (wtag ''tbl'') out_root ! oi))) \<longrightarrow>
         filter (at_row 4 ti ri) (r_issues rep) = [])"
    unfolding e by (rule table_issues_row[OF t ns m])
qed

theorem row_comparison_witness:
  "cmd_compare py_int (wdoc cells_tpl) (wdoc cells_out) =
     Inr \<lparr> r_tables = (1, 1), r_paragraphs = (3, 4), r_commands = (0, 0), r_matched = 1,
           r_instances = [], r_row_issues_count = 0,
           r_issues = [CellCount 0 1 1 2] \<rparr>
   \<and> length (el_iter (wtag ''tbl'') (wroot cells_tpl)) = 1
   \<and> table_label (el_iter (wtag ''tbl'') (wroot cells_tpl) ! 0) = ''A | B''
   \<and> find_table_in_output (el_iter (wtag ''tbl'') (wroot cells_out)) ''A | B''
        [''100'', ''200''] = Some 0
   \<and> length (el_findall (wtag ''tr'') (el_iter (wtag ''tbl'') (wroot cells_tpl) ! 0)) = 2
   \<and> length (el_findall (wtag ''tr'') (el_iter (wtag ''tbl'') (wroot cells_out) ! 0)) = 2
   \<and> filter (at_row 4 0 1) [CellCount 0 1 1 2] = [CellCount 0 1 1 2]
   \<and> filter (at_row 4 0 2) [CellCount 0 1 1 2] = []"
proof -
  let ?rep = "\<lparr> r_tables = (1, 1), r_paragraphs = (3, 4), r_commands = (0, 0), r_matched = 1,
           r_instances = [], r_row_issues_count = 0,
           r_issues = [CellCount 0 1 1 2] \<rparr>"
  let ?tpl = "el_iter (wtag ''tbl'') (wroot cells_tpl)"
  let ?out = "el_iter (wtag ''tbl'') (wroot cells_out)"
  have e: "cmd_compare py_int (wdoc cells_tpl) (wdoc cells_out) = Inr ?rep"
    by code_simp
  have d: "document_xml (wdoc cells_tpl) = Parsed (wroot cells_tpl)"
    "document_xml (wdoc cells_out) = Parsed (wroot cells_out)"
    by (simp_all add: wdoc_def)
  have n: "length ?tpl = 1" by code_simp
  have i: "0 < length ?tpl" using n by simp
  have lb: "table_label (?tpl ! 0) = ''A | B''" by code_simp
  have gr: "table_grid (?tpl ! 0) = [''100'', ''200'']" by code_simp
  have ns: "\<not> contains ''{FOR'' (table_label (?tpl ! 0))" "\<not> contains ''{$'' (table_label (?tpl ! 0))"
    unfolding lb by code_simp+
  have m: "find_table_in_output ?out ''A | B'' [''100'', ''200''] = Some 0" by code_simp
  have m': "find_table_in_output ?out (table_label (?tpl ! 0)) (table_grid (?tpl ! 0)) = Some 0"
    using m lb gr by simp
  have r: "length (el_findall (wtag ''tr'') (?tpl ! 0)) = 2"
    "length (el_findall (wtag ''tr'') (?out ! 0)) = 2"
    by code_simp+
  have w: "row_cell_widths py_int (el_findall (wtag ''tr'') (?tpl ! 0) ! 1)
             = Inr [\<lparr> ci_w = ''?'', ci_type = ''?'', ci_span = 2 \<rparr>]"
    "row_cell_widths py_int (el_findall (wtag ''tr'') (?out ! 0) ! 1)
             = Inr [\<lparr> ci_w = ''?'', ci_type = ''?'', ci_span = 1 \<rparr>,
                    \<lparr> ci_w = ''?'', ci_type = ''?'', ci_span = 1 \<rparr>]"
    by code_simp+
  have r1: "filter (at_row 4 0 1) (r_issues ?rep) = [CellCount 0 1 1 2]"
    using row_comparison[rule_format, OF e d i ns m', of 1, THEN conjunct1] r w by simp
  have r2: "filter (at_row 4 0 2) (r_issues ?rep) = []"
    using row_comparison[rule_format, OF e d i ns m', of 2, THEN conjunct2] r by simp
  show ?thesis using e n lb m r r1 r2 by simp
qed

theorem rows_beyond_overlap_counterexample:
  "cmd_compare py_int (wdoc rows_tpl) (wdoc rows_out) =
     Inr \<lparr> r_tables = (1, 1), r_paragraphs = (2, 1), r_commands = (0, 0), r_matched = 1,
           r_instances = [], r_row_issues_count = 0, r_issues = [] \<rparr>
   \<and> map (\<lambda>t. length (el_findall (wtag ''tr'') t)) (el_iter (wtag ''tbl'') (wroot rows_tpl)) = [2]
   \<and> map (\<lambda>t. length (el_findall (wtag ''tr'') t)) (el_iter (wtag ''tbl'') (wroot rows_out)) = [1]"
  by code_simp

text \<open>
  C5. The matcher returns the index of the first output table, in document order, whose
  label is equal to the template's, so the first of two output tables with the same
  label; it returns nothing exactly when no output table has that label. A template
  table that finds no match is left out of the comparison without an error: it adds no
  issue and does not count as matched, and the count of matched tables is the number of
  template tables that are not skipped and find a match.
\<close>

theorem table_matching:
  "(\<forall>out_tables tpl_label tpl_grid i.
      find_table_in_output out_tables tpl_label tpl_grid = Some i \<longleftrightarrow>
        i < length out_tables \<and> table_label (out_tables ! i) = tpl_label
        \<and> (\<forall>j<i. table_label (out_tables ! j) \<noteq> tpl_label))
   \<and> (\<forall>out_tables tpl_label tpl_grid.
        find_table_in_output out_tables tpl_label tpl_grid = None \<longleftrightarrow>
          tpl_label \<notin> table_label ` set out_tables)
   \<and> (\<forall>to_int tpl_path out_path rep tpl_root out_root.
        cmd_compare to_int tpl_path out_path = Inr rep \<longrightarrow>
        document_xml tpl_path = Parsed tpl_root \<longrightarrow>
        document_xml out_path = Parsed out_root \<longrightarrow>
          r_matched rep =
            length (filter (\<lambda>t. \<not> contains ''{FOR'' (table_label t)
                               \<and> \<not> contains ''{$'' (table_label t)
                               \<and> find_table_in_output (el_iter (wtag ''tbl'') out_root)
                                    (table_label t) (table_grid t) \<noteq> None)
                           (el_iter (wtag ''tbl'') tpl_root))
          \<and> (\<forall>ti < length (el_iter (wtag ''tbl'') tpl_root).
                find_table_in_output (el_iter (wtag ''tbl'') out_root)
                  (table_label (el_iter (wtag ''tbl'') tpl_root ! ti))
                  (table_grid (el_iter (wtag ''tbl'') tpl_root ! ti)) = None \<longrightarrow>
                table_issues to_int (el_iter (wtag ''tbl'') out_root) ti
                  (el_iter (wtag ''tbl'') tpl_root ! ti) = Inr (False, [])
                \<and> filter (at_table 4 ti) (r_issues rep) = []))"
proof (intro conjI allI impI)
  fix out_tables tpl_label tpl_grid i
  show "find_table_in_output out_tables tpl_label tpl_grid = Some i \<longleftrightarrow>
        i < length out_tables \<and> table_label (out_tables ! i) = tpl_label
        \<and> (\<forall>j<i. table_label (out_tables ! j) \<noteq> tpl_label)"
    by (rule find_table_in_output_Some)
next
  fix out_tables tpl_label tpl_grid
  show "find_table_in_output out_tables tpl_label tpl_grid = None \<longleftrightarrow>
          tpl_label \<notin> table_label ` set out_tables"
    by (rule find_table_in_output_None)
next
  fix to_int tpl_path out_path rep tpl_root out_root
  assume c: "cmd_compare to_int tpl_path out_path = Inr rep"
    and d: "document_xml tpl_path = Parsed tpl_root" "document_xml out_path = Parsed out_root"
  from c obtain tpl_root' out_root' issues4 where
    "document_xml tpl_path = Parsed tpl_root'" "document_xml out_path = Parsed out_root'"
    "table_grid_comparison to_int (el_iter (wtag ''tbl'') tpl_root') (el_iter (wtag ''tbl'') out_root')
       = Inr (r_matched rep, issues4)"
    by (rule cmd_compare_Inr) simp
  then have "table_grid_comparison to_int (el_iter (wtag ''tbl'') tpl_root)
               (el_iter (wtag ''tbl'') out_root) = Inr (r_matched rep, issues4)"
    using d by simp
  then show "r_matched rep =
            length (filter (\<lambda>t. \<not> contains ''{FOR'' (table_label t)
                               \<and> \<not> contains ''{$'' (table_label t)
                               \<and> find_table_in_output (el_iter (wtag ''tbl'') out_root)
                                    (table_label t) (table_grid t) \<noteq> None)
                           (el_iter (wtag ''tbl'') tpl_root))"
    by (rule table_grid_comparison_matched)
next
  fix to_int tpl_path out_path rep tpl_root out_root ti
  assume "find_table_in_output (el_iter (wtag ''tbl'') out_root)
                  (table_label (el_iter (wtag ''tbl'') tpl_root ! ti))
                  (table_grid (el_iter (wtag ''tbl'') tpl_root ! ti)) = None"
  then show "table_issues to_int (el_iter (wtag ''tbl'') out_root) ti
                  (el_iter (wtag ''tbl'') tpl_root ! ti) = Inr (False, [])"
    by (rule table_issues_unmatched)
next
  fix to_int tpl_path out_path rep tpl_root out_root ti
  assume c: "cmd_compare to_int tpl_path out_path = Inr rep"
    and d: "document_xml tpl_path = Parsed tpl_root" "document_xml out_path = Parsed out_root"
    and i: "ti < length (el_iter (wtag ''tbl'') tpl_root)"
    and n: "find_table_in_output (el_iter (wtag ''tbl'') out_root)
                  (table_label (el_iter (wtag ''tbl'') tpl_root ! ti))
                  (table_grid (el_iter (wtag ''tbl'') tpl_root ! ti)) = None"
  from c obtain tpl_root' out_root' matched issues4 where
    "document_xml tpl_path = Parsed tpl_root'" "document_xml out_path = Parsed out_root'"
    "table_grid_comparison to_int (el_iter (wtag ''tbl'') tpl_root') (el_iter (wtag ''tbl'') out_root')
       = Inr (matched, issues4)"
    "filter (at_table 4 ti) (r_issues rep) = filter (at_table 4 ti) issues4"
    by (rule issues_of_section[where P = "at_table 4 ti" and k = 4]) (auto simp: at_table_def)
  then have g: "table_grid_comparison to_int (el_iter (wtag ''tbl'') tpl_root)
               (el_iter (wtag ''tbl'') out_root) = Inr (matched, issues4)"
    and f: "filter (at_table 4 ti) (r_issues rep) = filter (at_table 4 ti) issues4"
    using d by simp_all
  from g i obtain b ys where
    "table_issues to_int (el_iter (wtag ''tbl'') out_root) ti (el_iter (wtag ''tbl'') tpl_root ! ti)
       = Inr (b, ys)"
    "filter (at_table 4 ti) issues4 = filter (at_table 4 ti) ys"
    by (rule table_grid_comparison_table[where P = "at_table 4 ti"]) (auto simp: at_table_def)
  then show "filter (at_table 4 ti) (r_issues rep) = []"
    using f n by (simp add: table_issues_unmatched)
qed

theorem table_matching_witness:
  "cmd_compare py_int (wdoc match_tpl) (wdoc match_out) =
     Inr \<lparr> r_tables = (2, 3), r_paragraphs = (2, 3), r_commands = (0, 0), r_matched = 1,
           r_instances = [], r_row_issues_count = 0,
           r_issues = [GridMismatch 0 ''A'' [''300''] [''100'']] \<rparr>
   \<and> map table_label (el_iter (wtag ''tbl'') (wroot match_tpl)) = [''A'', ''C'']
   \<and> map table_label (el_iter (wtag ''tbl'') (wroot match_out)) = [''A'', ''B'', ''A'']
   \<and> find_table_in_output (el_iter (wtag ''tbl'') (wroot match_out)) ''A'' [''300''] = Some 0
   \<and> find_table_in_output (el_iter (wtag ''tbl'') (wroot match_out)) ''C'' [''100''] = None
   \<and> filter (at_table 4 1) [GridMismatch 0 ''A'' [''300''] [''100'']] = []"
proof -
  let ?rep = "\<lparr> r_tables = (2, 3), r_paragraphs = (2, 3), r_commands = (0, 0), r_matched = 1,
           r_instances = [], r_row_issues_count = 0,
           r_issues = [GridMismatch 0 ''A'' [''300''] [''100'']] \<rparr>"
  let ?out = "el_iter (wtag ''tbl'') (wroot match_out)"
  let ?tpl = "el_iter (wtag ''tbl'') (wroot match_tpl)"
  have e: "cmd_compare py_int (wdoc match_tpl) (wdoc match_out) = Inr ?rep"
    by code_simp
  have d: "document_xml (wdoc match_tpl) = Parsed (wroot match_tpl)"
    "document_xml (wdoc match_out) = Parsed (wroot match_out)"
    by (simp_all add: wdoc_def)
  have lt: "map table_label ?tpl = [''A'', ''C'']" by code_simp
  have lo: "map table_label ?out = [''A'', ''B'', ''A'']" by code_simp
  have gt: "map table_grid ?tpl = [[''300''], [''100'']]" by code_simp
  have n: "length ?tpl = 2" "length ?out = 3"
    using arg_cong[OF lt, of length] arg_cong[OF lo, of length] by simp_all
  have o0: "table_label (?out ! 0) = ''A''"
    using arg_cong[OF lo, of "\<lambda>l. l ! 0"] n by simp
  have t1: "table_label (?tpl ! 1) = ''C''" "table_grid (?tpl ! 1) = [''100'']"
    using arg_cong[OF lt, of "\<lambda>l. l ! 1"] arg_cong[OF gt, of "\<lambda>l. l ! 1"] n by simp_all
  have s: "find_table_in_output ?out ''A'' [''300''] = Some 0"
    using table_matching[THEN conjunct1, rule_format, of ?out "''A''" "[''300'']" 0] o0 n by simp
  have "''C'' \<notin> table_label ` set ?out"
    using arg_cong[OF lo, of set] by (simp del: set_map add: set_map[symmetric])
  then have u: "find_table_in_output ?out ''C'' [''100''] = None"
    using table_matching[THEN conjunct2, THEN conjunct1, rule_format, of ?out "''C''" "[''100'']"]
    by simp
  have f: "filter (at_table 4 1) (r_issues ?rep) = []"
    using table_matching[THEN conjunct2, THEN conjunct2, rule_format, OF e d, THEN conjunct2,
            rule_format, of 1] n u t1
    by simp
  show ?thesis using e lt lo s u f by simp
qed

text \<open>
  C6. The groups that the loop-expansion check treats as families, each reported with one
  line, are exactly the groups of more than two output tables with the same grid: the
  tables with a given grid form a family if and only if there are three or more of them,
  every member of a family has its grid shared by three or more tables, and a table whose
  grid is shared by at most two tables is never compared and gives no section-5 issue.
\<close>

theorem loop_family_threshold:
  "\<forall>to_int tpl_path out_path rep out_root.
      cmd_compare to_int tpl_path out_path = Inr rep \<longrightarrow>
      document_xml out_path = Parsed out_root \<longrightarrow>
        r_instances rep =
          map (\<lambda>g. (length (snd g), take 60 (fst g),
                    take 40 (table_label (el_iter (wtag ''tbl'') out_root ! hd (snd g)))))
              (families (el_iter (wtag ''tbl'') out_root))
      \<and> (\<forall>g. (str_tuple g, tables_with_grid (el_iter (wtag ''tbl'') out_root) g)
                 \<in> set (families (el_iter (wtag ''tbl'') out_root))
               \<longleftrightarrow> 2 < length (tables_with_grid (el_iter (wtag ''tbl'') out_root) g))
      \<and> (\<forall>fam \<in> set (families (el_iter (wtag ''tbl'') out_root)). \<forall>i \<in> set (snd fam).
            i < length (el_iter (wtag ''tbl'') out_root)
          \<and> fam = (str_tuple (table_grid (el_iter (wtag ''tbl'') out_root ! i)),
                    tables_with_grid (el_iter (wtag ''tbl'') out_root)
                      (table_grid (el_iter (wtag ''tbl'') out_root ! i)))
          \<and> 2 < length (tables_with_grid (el_iter (wtag ''tbl'') out_root)
                           (table_grid (el_iter (wtag ''tbl'') out_root ! i))))
      \<and> (\<forall>idx < length (el_iter (wtag ''tbl'') out_root).
            length (tables_with_grid (el_iter (wtag ''tbl'') out_root)
                      (table_grid (el_iter (wtag ''tbl'') out_root ! idx))) \<le> 2
            \<longrightarrow> filter (at_table 5 idx) (r_issues rep) = [])"
proof (intro allI impI conjI ballI)
  fix to_int tpl_path out_path rep out_root
  assume c: "cmd_compare to_int tpl_path out_path = Inr rep"
    and d: "document_xml out_path = Parsed out_root"
  let ?T = "el_iter (wtag ''tbl'') out_root"
  from c d obtain issues5 where
    "for_loop_expansion to_int ?T = Inr (issues5, r_instances rep)"
    by (rule cmd_compare_section5[where P = "\<lambda>x. issue_section x = 5"]) simp
  then show "r_instances rep =
          map (\<lambda>g. (length (snd g), take 60 (fst g), take 40 (table_label (?T ! hd (snd g)))))
              (families ?T)"
    by (rule for_loop_expansion_lines)
next
  fix out_root g
  show "(str_tuple g, tables_with_grid (el_iter (wtag ''tbl'') out_root) g)
                 \<in> set (families (el_iter (wtag ''tbl'') out_root))
               \<longleftrightarrow> 2 < length (tables_with_grid (el_iter (wtag ''tbl'') out_root) g)"
    by (rule families_iff)
next
  fix out_root fam i
  assume "fam \<in> set (families (el_iter (wtag ''tbl'') out_root))" "i \<in> set (snd fam)"
  note m = families_member[OF this]
  show "i < length (el_iter (wtag ''tbl'') out_root)" using m by simp
  show "fam = (str_tuple (table_grid (el_iter (wtag ''tbl'') out_root ! i)),
                    tables_with_grid (el_iter (wtag ''tbl'') out_root)
                      (table_grid (el_iter (wtag ''tbl'') out_root ! i)))"
    using m by simp
  show "2 < length (tables_with_grid (el_iter (wtag ''tbl'') out_root)
                           (table_grid (el_iter (wtag ''tbl'') out_root ! i)))"
    using m by simp
next
  fix to_int tpl_path out_path rep out_root idx
  assume c: "cmd_compare to_int tpl_path out_path = Inr rep"
    and d: "document_xml out_path = Parsed out_root"
    and i: "idx < length (el_iter (wtag ''tbl'') out_root)"
    and s: "length (tables_with_grid (el_iter (wtag ''tbl'') out_root)
                      (table_grid (el_iter (wtag ''tbl'') out_root ! idx))) \<le> 2"
  let ?T = "el_iter (wtag ''tbl'') out_root"
  from c d obtain issues5 where a:
    "for_loop_expansion to_int ?T = Inr (issues5, r_instances rep)"
    "filter (at_table 5 idx) (r_issues rep) = filter (at_table 5 idx) issues5"
    by (rule cmd_compare_section5[where P = "at_table 5 idx"]) (simp add: at_table_def)
  show "filter (at_table 5 idx) (r_issues rep) = []"
    unfolding a(2) by (rule section5_small_group[OF a(1) i s])
qed

theorem loop_family_threshold_witness:
  "cmd_compare py_int (wdoc []) (wdoc pair_out) =
     Inr \<lparr> r_tables = (0, 2), r_paragraphs = (0, 2), r_commands = (0, 0), r_matched = 0,
           r_instances = [], r_row_issues_count = 0, r_issues = [] \<rparr>
   \<and> document_xml (wdoc pair_out) = Parsed (wroot pair_out)
   \<and> tables_with_grid (el_iter (wtag ''tbl'') (wroot pair_out)) [''100''] = [0, 1]
   \<and> families (el_iter (wtag ''tbl'') (wroot pair_out)) = []
   \<and> cmd_compare py_int (wdoc []) (wdoc family_out) =
       Inr \<lparr> r_tables = (0, 3), r_paragraphs = (0, 6), r_commands = (0, 0), r_matched = 0,
             r_instances = [(3, str_tuple [''100'', ''200''], ''A | B'')],
             r_row_issues_count = 0,
             r_issues = [FamilyCellCount 2 0 1 0 2] \<rparr>
   \<and> tables_with_grid (el_iter (wtag ''tbl'') (wroot family_out)) [''100'', ''200''] = [0, 1, 2]
   \<and> (str_tuple [''100'', ''200''], [0, 1, 2])
       \<in> set (families (el_iter (wtag ''tbl'') (wroot family_out)))"
proof -
  let ?P = "el_iter (wtag ''tbl'') (wroot pair_out)"
  let ?F = "el_iter (wtag ''tbl'') (wroot family_out)"
  have dp: "document_xml (wdoc pair_out) = Parsed (wroot pair_out)"
    and df: "document_xml (wdoc family_out) = Parsed (wroot family_out)"
    by (simp_all add: wdoc_def)
  have tp: "tables_with_grid ?P [''100''] = [0, 1]" by code_simp
  have tf: "tables_with_grid ?F [''100'', ''200''] = [0, 1, 2]" by code_simp
  have fp: "families ?P = []" unfolding families_def pair_out_groups by simp
  have "(str_tuple [''100'', ''200''], tables_with_grid ?F [''100'', ''200'']) \<in> set (families ?F)
          \<longleftrightarrow> 2 < length (tables_with_grid ?F [''100'', ''200''])"
    using loop_family_threshold[rule_format, OF family_out_report df, THEN conjunct2,
            THEN conjunct1, rule_format, of "[''100'', ''200'']"] .
  then have mf: "(str_tuple [''100'', ''200''], [0, 1, 2]) \<in> set (families ?F)"
    unfolding tf by simp
  have "(str_tuple [''100''], tables_with_grid ?P [''100'']) \<in> set (families ?P)
          \<longleftrightarrow> 2 < length (tables_with_grid ?P [''100''])"
    using loop_family_threshold[rule_format, OF pair_out_report dp, THEN conjunct2,
            THEN conjunct1, rule_format, of "[''100'']"] .
  then have "(str_tuple [''100''], [0, 1]) \<notin> set (families ?P)"
    unfolding tp by simp
  show ?thesis using pair_out_report dp tp fp family_out_report tf mf by simp
qed

text \<open>
  C7, as the code has it. In a loop-expansion family, a member other than the first that
  has as many rows as the first is compared with it row by row: its section-5 issues are
  exactly one family cell-count issue for each row whose number of cells differs from
  that of the first member's row of the same index, in row order. These issues are of a
  kind of their own, apart from the cell-count issues of section 4. A member whose number
  of rows differs from the first member's is skipped and gives no issue, whatever its
  rows hold, and the first member itself gives none.
\<close>

theorem family_comparison:
  "\<forall>to_int tpl_path out_path rep out_root fam idx.
      cmd_compare to_int tpl_path out_path = Inr rep \<longrightarrow>
      document_xml out_path = Parsed out_root \<longrightarrow>
      fam \<in> set (families (el_iter (wtag ''tbl'') out_root)) \<longrightarrow>
      (idx \<in> set (tl (snd fam)) \<longrightarrow>
         filter (at_table 5 idx) (r_issues rep) =
           (if length (el_findall (wtag ''tr'') (el_iter (wtag ''tbl'') out_root ! idx))
                 \<noteq> length (el_findall (wtag ''tr'') (el_iter (wtag ''tbl'') out_root ! hd (snd fam)))
            then []
            else concat (map (\<lambda>ri.
                   if length (el_findall (wtag ''tc'')
                                (el_findall (wtag ''tr'')
                                   (el_iter (wtag ''tbl'') out_root ! hd (snd fam)) ! ri))
                        \<noteq> length (el_findall (wtag ''tc'')
                                     (el_findall (wtag ''tr'')
                                        (el_iter (wtag ''tbl'') out_root ! idx) ! ri))
                   then [FamilyCellCount idx ri
                           (length (el_findall (wtag ''tc'')
                                      (el_findall (wtag ''tr'')
                                         (el_iter (wtag ''tbl'') out_root ! idx) ! ri)))
                           (hd (snd fam))
                           (length (el_findall (wtag ''tc'')
                                      (el_findall (wtag ''tr'')
                                         (el_iter (wtag ''tbl'') out_root ! hd (snd fam)) ! ri)))]
                   else [])
                 [0..<length (el_findall (wtag ''tr'')
                                (el_iter (wtag ''tbl'') out_root ! hd (snd fam)))])))
    \<and> filter (at_table 5 (hd (snd fam))) (r_issues rep) = []"
proof (intro allI impI)
  fix to_int tpl_path out_path rep out_root fam idx
  assume c: "cmd_compare to_int tpl_path out_path = Inr rep"
    and d: "document_xml out_path = Parsed out_root"
    and fam: "fam \<in> set (families (el_iter (wtag ''tbl'') out_root))"
  let ?T = "el_iter (wtag ''tbl'') out_root"
  have sec: "\<exists>issues5. for_loop_expansion to_int ?T = Inr (issues5, r_instances rep)
               \<and> filter (at_table 5 j) (r_issues rep) = filter (at_table 5 j) issues5" for j
  proof -
    from c d obtain issues5 where
      "for_loop_expansion to_int ?T = Inr (issues5, r_instances rep)"
      "filter (at_table 5 j) (r_issues rep) = filter (at_table 5 j) issues5"
      by (rule cmd_compare_section5[where P = "at_table 5 j"]) (simp add: at_table_def)
    then show ?thesis by blast
  qed
  from sec[of idx] obtain a where a:
    "for_loop_expansion to_int ?T = Inr (a, r_instances rep)"
    "filter (at_table 5 idx) (r_issues rep) = filter (at_table 5 idx) a"
    by blast
  from sec[of "hd (snd fam)"] obtain b where b:
    "for_loop_expansion to_int ?T = Inr (b, r_instances rep)"
    "filter (at_table 5 (hd (snd fam))) (r_issues rep) = filter (at_table 5 (hd (snd fam))) b"
    by blast
  have ab: "b = a" using a(1) b(1) by simp
  show "(idx \<in> set (tl (snd fam)) \<longrightarrow>
         filter (at_table 5 idx) (r_issues rep) =
           (if length (el_findall (wtag ''tr'') (?T ! idx))
                 \<noteq> length (el_findall (wtag ''tr'') (?T ! hd (snd fam)))
            then []
            else concat (map (\<lambda>ri.
                   if length (el_findall (wtag ''tc'')
                                (el_findall (wtag ''tr'') (?T ! hd (snd fam)) ! ri))
                        \<noteq> length (el_findall (wtag ''tc'')
                                     (el_findall (wtag ''tr'') (?T ! idx) ! ri))
                   then [FamilyCellCount idx ri
                           (length (el_findall (wtag ''tc'')
                                      (el_findall (wtag ''tr'') (?T ! idx) ! ri)))
                           (hd (snd fam))
                           (length (el_findall (wtag ''tc'')
                                      (el_findall (wtag ''tr'') (?T ! hd (snd fam)) ! ri)))]
                   else [])
                 [0..<length (el_findall (wtag ''tr'') (?T ! hd (snd fam)))])))
    \<and> filter (at_table 5 (hd (snd fam))) (r_issues rep) = []"
    unfolding a(2) b(2) ab by (rule section5_member[OF a(1) fam])
qed

theorem family_comparison_witness:
  "cmd_compare py_int (wdoc []) (wdoc family_out) =
     Inr \<lparr> r_tables = (0, 3), r_paragraphs = (0, 6), r_commands = (0, 0), r_matched = 0,
           r_instances = [(3, str_tuple [''100'', ''200''], ''A | B'')],
           r_row_issues_count = 0,
           r_issues = [FamilyCellCount 2 0 1 0 2] \<rparr>
   \<and> document_xml (wdoc family_out) = Parsed (wroot family_out)
   \<and> families (el_iter (wtag ''tbl'') (wroot family_out))
       = [(str_tuple [''100'', ''200''], [0, 1, 2])]
   \<and> map (\<lambda>t. map (\<lambda>r. length (el_findall (wtag ''tc'') r)) (el_findall (wtag ''tr'') t))
          (el_iter (wtag ''tbl'') (wroot family_out)) = [[2], [1, 2], [1]]
   \<and> filter (at_table 5 2) [FamilyCellCount 2 0 1 0 2] = [FamilyCellCount 2 0 1 0 2]
   \<and> filter (at_table 5 1) [FamilyCellCount 2 0 1 0 2] = []
   \<and> filter (at_table 5 0) [FamilyCellCount 2 0 1 0 2] = []"
proof -
  let ?rep = "\<lparr> r_tables = (0, 3), r_paragraphs = (0, 6), r_commands = (0, 0), r_matched = 0,
           r_instances = [(3, str_tuple [''100'', ''200''], ''A | B'')],
           r_row_issues_count = 0,
           r_issues = [FamilyCellCount 2 0 1 0 2] \<rparr>"
  let ?T = "el_iter (wtag ''tbl'') (wroot family_out)"
  let ?fam = "(str_tuple [''100'', ''200''], [0::nat, 1, 2])"
  have d: "document_xml (wdoc family_out) = Parsed (wroot family_out)"
    by (simp add: wdoc_def)
  have f: "families ?T = [?fam]"
    unfolding families_def family_out_groups by simp
  have m: "?fam \<in> set (families ?T)" unfolding f by simp
  have r0: "filter (at_table 5 (hd (snd ?fam))) (r_issues ?rep) = []"
    using family_comparison[rule_format, OF family_out_report d m, THEN conjunct2] .
  have t2: "2 \<in> set (tl (snd ?fam))" and t1: "1 \<in> set (tl (snd ?fam))" by simp_all
  note x2 = family_comparison[rule_format, OF family_out_report d m, THEN conjunct1,
              rule_format, OF t2]
  note x1 = family_comparison[rule_format, OF family_out_report d m, THEN conjunct1,
              rule_format, OF t1]
  have r2: "filter (at_table 5 2) (r_issues ?rep) = [FamilyCellCount 2 0 1 0 2]"
    unfolding x2 by code_simp
  have r1: "filter (at_table 5 1) (r_issues ?rep) = []"
    unfolding x1 by code_simp
  show ?thesis using family_out_report d f family_out_shape r0 r1 r2 by simp
qed

theorem family_comparison_counterexample:
  "cmd_compare py_int (wdoc []) (wdoc family_out) =
     Inr \<lparr> r_tables = (0, 3), r_paragraphs = (0, 6), r_commands = (0, 0), r_matched = 0,
           r_instances = [(3, str_tuple [''100'', ''200''], ''A | B'')],
           r_row_issues_count = 0,
           r_issues = [FamilyCellCount 2 0 1 0 2] \<rparr>
   \<and> map (\<lambda>t. map (\<lambda>r. length (el_findall (wtag ''tc'') r)) (el_findall (wtag ''tr'') t))
          (el_iter (wtag ''tbl'') (wroot family_out)) = [[2], [1, 2], [1]]"
  using family_out_report family_out_shape by simp

text \<open>
  C8. In every output table whose grid is not empty, each row gives exactly one
  span-anomaly issue when the spans of its cells do not sum to the number of grid
  columns, and none when they do; no span-anomaly issue names a row that the table does
  not have, so a table whose every row sums to the number of grid columns gives no
  span-anomaly issue. A table whose grid is empty gives no span-anomaly issue at all, and
  none names a table that the output does not have.
\<close>

theorem row_span_validation:
  "\<forall>to_int tpl_path out_path rep out_root i.
      cmd_compare to_int tpl_path out_path = Inr rep \<longrightarrow>
      document_xml out_path = Parsed out_root \<longrightarrow>
      (\<not> i < length (el_iter (wtag ''tbl'') out_root) \<longrightarrow>
         filter (at_table 6 i) (r_issues rep) = [])
    \<and> (i < length (el_iter (wtag ''tbl'') out_root) \<longrightarrow>
      (table_grid (el_iter (wtag ''tbl'') out_root ! i) = [] \<longrightarrow>
         filter (at_table 6 i) (r_issues rep) = [])
    \<and> (table_grid (el_iter (wtag ''tbl'') out_root ! i) \<noteq> [] \<longrightarrow>
         (\<forall>ri < length (el_findall (wtag ''tr'') (el_iter (wtag ''tbl'') out_root ! i)).
            \<exists>cells.
              row_cell_widths to_int
                (el_findall (wtag ''tr'') (el_iter (wtag ''tbl'') out_root ! i) ! ri) = Inr cells
            \<and> filter (at_row 6 i ri) (r_issues rep) =
                (if sum_list (map ci_span cells)
                      \<noteq> int (length (table_grid (el_iter (wtag ''tbl'') out_root ! i)))
                 then [SpanAnomaly i ri (sum_list (map ci_span cells))
                         (length (table_grid (el_iter (wtag ''tbl'') out_root ! i)))
                         (length cells)
                         (take 4 (map (\<lambda>c. take 25 (cell_text c))
                            (el_findall (wtag ''tc'')
                               (el_findall (wtag ''tr'') (el_iter (wtag ''tbl'') out_root ! i)
                                  ! ri))))]
                 else []))
       \<and> (\<forall>ri. \<not> ri < length (el_findall (wtag ''tr'') (el_iter (wtag ''tbl'') out_root ! i))
                \<longrightarrow> filter (at_row 6 i ri) (r_issues rep) = [])
       \<and> ((\<forall>ri < length (el_findall (wtag ''tr'') (el_iter (wtag ''tbl'') out_root ! i)).
             \<forall>cells.
               row_cell_widths to_int
                 (el_findall (wtag ''tr'') (el_iter (wtag ''tbl'') out_root ! i) ! ri) = Inr cells
               \<longrightarrow> sum_list (map ci_span cells)
                     = int (length (table_grid (el_iter (wtag ''tbl'') out_root ! i))))
            \<longrightarrow> filter (at_table 6 i) (r_issues rep) = [])))"
proof (intro allI impI)
  fix to_int tpl_path out_path rep out_root i
  assume c: "cmd_compare to_int tpl_path out_path = Inr rep"
    and d: "document_xml out_path = Parsed out_root"
  let ?tables = "el_iter (wtag ''tbl'') out_root"
  let ?tbl = "?tables ! i"
  let ?rows = "el_findall (wtag ''tr'') ?tbl"
  have sec: "\<exists>issues6. row_anomalies to_int ?tables = Inr issues6
               \<and> filter P (r_issues rep) = filter P issues6"
    if "\<And>x. P x \<Longrightarrow> issue_section x = 6" for P
  proof -
    from c that obtain out_root' issues6 where
      "document_xml out_path = Parsed out_root'"
      "row_anomalies to_int (el_iter (wtag ''tbl'') out_root') = Inr issues6"
      "filter P (r_issues rep) = filter P issues6"
      by (rule issues_of_section[where P = P and k = 6]) auto
    then show ?thesis using d by auto
  qed
  have tab: "\<exists>ys. span_table_issues to_int i ?tbl = Inr ys
               \<and> filter P (r_issues rep) = filter P ys"
    if "\<And>x. P x \<Longrightarrow> issue_section x = 6 \<and> issue_table x = Some i" "i < length ?tables" for P
  proof -
    from sec[of P] that(1) obtain issues6 where s:
      "row_anomalies to_int ?tables = Inr issues6"
      "filter P (r_issues rep) = filter P issues6"
      by auto
    have pt: "issue_table x = Some i" if "P x" for x
      using \<open>\<And>x. P x \<Longrightarrow> issue_section x = 6 \<and> issue_table x = Some i\<close> that by blast
    from s(1) that(2) obtain ys where
      "span_table_issues to_int i ?tbl = Inr ys" "filter P issues6 = filter P ys"
      by (rule row_anomalies_table[where P = P]) (rule pt)
    then show ?thesis using s(2) by auto
  qed
  have beyond: "filter (at_table 6 i) (r_issues rep) = []" if "\<not> i < length ?tables"
  proof -
    from sec[of "at_table 6 i"] obtain issues6 where s:
      "row_anomalies to_int ?tables = Inr issues6"
      "filter (at_table 6 i) (r_issues rep) = filter (at_table 6 i) issues6"
      by (auto simp: at_table_def)
    have "filter (at_table 6 i) issues6 = []"
      by (rule row_anomalies_beyond[OF s(1) that]) (simp add: at_table_def)
    then show ?thesis using s(2) by simp
  qed
  have empty: "filter (at_table 6 i) (r_issues rep) = []"
    if "i < length ?tables" "table_grid ?tbl = []"
  proof -
    from tab[of "at_table 6 i"] that(1) obtain ys where
      "span_table_issues to_int i ?tbl = Inr ys"
      "filter (at_table 6 i) (r_issues rep) = filter (at_table 6 i) ys"
      by (auto simp: at_table_def)
    then show ?thesis using that(2) by (simp add: span_table_issues_skipped)
  qed
  have row: "(ri < length ?rows \<longrightarrow>
           (\<exists>cells. row_cell_widths to_int (?rows ! ri) = Inr cells
              \<and> filter (at_row 6 i ri) (r_issues rep) =
                  (if sum_list (map ci_span cells) \<noteq> int (length (table_grid ?tbl))
                   then [SpanAnomaly i ri (sum_list (map ci_span cells)) (length (table_grid ?tbl))
                           (length cells)
                           (take 4 (map (\<lambda>c. take 25 (cell_text c))
                                        (el_findall (wtag ''tc'') (?rows ! ri))))]
                   else [])))
       \<and> (\<not> ri < length ?rows \<longrightarrow> filter (at_row 6 i ri) (r_issues rep) = [])"
    if "i < length ?tables" "table_grid ?tbl \<noteq> []" for ri
  proof -
    from tab[of "at_row 6 i ri"] that(1) obtain ys where ys:
      "span_table_issues to_int i ?tbl = Inr ys"
      "filter (at_row 6 i ri) (r_issues rep) = filter (at_row 6 i ri) ys"
      by (auto simp: at_row_def)
    show ?thesis
      unfolding ys(2) by (rule span_table_issues_row[OF ys(1) that(2)])
  qed
  have clean: "filter (at_table 6 i) (r_issues rep) = []"
    if "i < length ?tables" "table_grid ?tbl \<noteq> []"
      "\<forall>ri < length ?rows. \<forall>cells. row_cell_widths to_int (?rows ! ri) = Inr cells
           \<longrightarrow> sum_list (map ci_span cells) = int (length (table_grid ?tbl))"
  proof -
    from tab[of "at_table 6 i"] that(1) obtain ys where ys:
      "span_table_issues to_int i ?tbl = Inr ys"
      "filter (at_table 6 i) (r_issues rep) = filter (at_table 6 i) ys"
      by (auto simp: at_table_def)
    have "ys = []"
      by (rule span_table_issues_clean[OF ys(1) that(2)]) (use that(3) in blast)
    then show ?thesis using ys(2) by simp
  qed
  show "(\<not> i < length ?tables \<longrightarrow> filter (at_table 6 i) (r_issues rep) = [])
    \<and> (i < length ?tables \<longrightarrow>
      (table_grid ?tbl = [] \<longrightarrow> filter (at_table 6 i) (r_issues rep) = [])
    \<and> (table_grid ?tbl \<noteq> [] \<longrightarrow>
         (\<forall>ri < length ?rows.
            \<exists>cells.
              row_cell_widths to_int (?rows ! ri) = Inr cells
            \<and> filter (at_row 6 i ri) (r_issues rep) =
                (if sum_list (map ci_span cells) \<noteq> int (length (table_grid ?tbl))
                 then [SpanAnomaly i ri (sum_list (map ci_span cells))
                         (length (table_grid ?tbl)) (length cells)
                         (take 4 (map (\<lambda>c. take 25 (cell_text c))
                            (el_findall (wtag ''tc'') (?rows ! ri))))]
                 else []))
       \<and> (\<forall>ri. \<not> ri < length ?rows \<longrightarrow> filter (at_row 6 i ri) (r_issues rep) = [])
       \<and> ((\<forall>ri < length ?rows. \<forall>cells.
               row_cell_widths to_int (?rows ! ri) = Inr cells
               \<longrightarrow> sum_list (map ci_span cells) = int (length (table_grid ?tbl)))
            \<longrightarrow> filter (at_table 6 i) (r_issues rep) = [])))"
    using beyond empty row clean by blast
qed

theorem row_span_validation_witness:
  "cmd_compare py_int (wdoc []) (wdoc span_example) =
     Inr \<lparr> r_tables = (0, 1), r_paragraphs = (0, 4), r_commands = (0, 0), r_matched = 0,
           r_instances = [], r_row_issues_count = 1,
           r_issues = [SpanAnomaly 0 2 3 2 1 [''d'']] \<rparr>
   \<and> document_xml (wdoc span_example) = Parsed (wroot span_example)
   \<and> 0 < length (el_iter (wtag ''tbl'') (wroot span_example))
   \<and> table_grid (el_iter (wtag ''tbl'') (wroot span_example) ! 0) = [''100'', ''200'']
   \<and> length (el_findall (wtag ''tr'') (el_iter (wtag ''tbl'') (wroot span_example) ! 0)) = 3
   \<and> map (map_sum id (map ci_span) \<circ> row_cell_widths py_int)
          (el_findall (wtag ''tr'') (el_iter (wtag ''tbl'') (wroot span_example) ! 0)) =
       [Inr [1, 1], Inr [2], Inr [3]]
   \<and> filter (at_row 6 0 1) [SpanAnomaly 0 2 3 2 1 [''d'']] = []
   \<and> filter (at_row 6 0 2) [SpanAnomaly 0 2 3 2 1 [''d'']] = [SpanAnomaly 0 2 3 2 1 [''d'']]
   \<and> filter (at_row 6 0 7) [SpanAnomaly 0 2 3 2 1 [''d'']] = []
   \<and> filter (at_table 6 1) [SpanAnomaly 0 2 3 2 1 [''d'']] = []"
proof -
  let ?rep = "\<lparr> r_tables = (0, 1), r_paragraphs = (0, 4), r_commands = (0, 0), r_matched = 0,
           r_instances = [], r_row_issues_count = 1,
           r_issues = [SpanAnomaly 0 2 3 2 1 [''d'']] \<rparr>"
  let ?tbl = "el_iter (wtag ''tbl'') (wroot span_example) ! 0"
  have e: "cmd_compare py_int (wdoc []) (wdoc span_example) = Inr ?rep"
    by code_simp
  have d: "document_xml (wdoc span_example) = Parsed (wroot span_example)"
    by (simp add: wdoc_def)
  have i: "0 < length (el_iter (wtag ''tbl'') (wroot span_example))"
    by code_simp
  have g: "table_grid ?tbl = [''100'', ''200'']"
    by code_simp
  have n: "length (el_findall (wtag ''tr'') ?tbl) = 3"
    by code_simp
  have w: "map (map_sum id (map ci_span) \<circ> row_cell_widths py_int) (el_findall (wtag ''tr'') ?tbl) =
       [Inr [1, 1], Inr [2], Inr [3]]"
    by code_simp
  have w1: "row_cell_widths py_int (el_findall (wtag ''tr'') ?tbl ! 1)
              = Inr [\<lparr> ci_w = ''?'', ci_type = ''?'', ci_span = 2 \<rparr>]"
    by code_simp
  have w2: "row_cell_widths py_int (el_findall (wtag ''tr'') ?tbl ! 2)
              = Inr [\<lparr> ci_w = ''?'', ci_type = ''?'', ci_span = 3 \<rparr>]"
    by code_simp
  have t: "take 4 (map (\<lambda>c. take 25 (cell_text c))
             (el_findall (wtag ''tc'') (el_findall (wtag ''tr'') ?tbl ! 2))) = [''d'']"
    by code_simp
  have r: "\<forall>ri < length (el_findall (wtag ''tr'') ?tbl).
            \<exists>cells.
              row_cell_widths py_int (el_findall (wtag ''tr'') ?tbl ! ri) = Inr cells
            \<and> filter (at_row 6 0 ri) (r_issues ?rep) =
                (if sum_list (map ci_span cells) \<noteq> int (length (table_grid ?tbl))
                 then [SpanAnomaly 0 ri (sum_list (map ci_span cells))
                         (length (table_grid ?tbl)) (length cells)
                         (take 4 (map (\<lambda>c. take 25 (cell_text c))
                            (el_findall (wtag ''tc'') (el_findall (wtag ''tr'') ?tbl ! ri))))]
                 else [])"
    using row_span_validation[rule_format, OF e d, THEN conjunct2, rule_format, OF i,
            THEN conjunct2, rule_format, THEN conjunct1] g
    by simp
  have r1: "filter (at_row 6 0 1) (r_issues ?rep) = []"
    using r[rule_format, of 1] n w1 g by simp
  have r2: "filter (at_row 6 0 2) (r_issues ?rep) = [SpanAnomaly 0 2 3 2 1 [''d'']]"
    using r[rule_format, of 2] n w2 g t by simp
  have r7: "filter (at_row 6 0 7) (r_issues ?rep) = []"
    using row_span_validation[rule_format, OF e d, THEN conjunct2, rule_format, OF i,
            THEN conjunct2, rule_format, THEN conjunct2, THEN conjunct1, rule_format, of 7] g n
    by simp
  have t1: "filter (at_table 6 1) (r_issues ?rep) = []"
    using row_span_validation[rule_format, OF e d, THEN conjunct1, rule_format, of 1] i
      arg_cong[OF n, of id]
    by code_simp
  show ?thesis
    using e d i g n w r1 r2 r7 t1 by simp
qed

text \<open>
  C9. For every identifier, the footnote references of the output give exactly one
  duplicate issue when the identifier occurs more than once, and that issue names the
  number of its occurrences; they give none when it occurs once or not at all. An
  output with the reference \<open>3\<close> twice and the reference \<open>4\<close> once gives exactly one
  issue, the duplicate \<open>3\<close> with count 2.
\<close>

theorem duplicate_references:
  "(\<forall>to_int tpl_path out_path rep out_root fid.
      cmd_compare to_int tpl_path out_path = Inr rep \<longrightarrow>
      document_xml out_path = Parsed out_root \<longrightarrow>
      filter (duplicate_of fid) (r_issues rep) =
        (if count_list (footnote_refs out_root) fid > 1
         then [FootnoteDuplicate fid (count_list (footnote_refs out_root) fid)] else []))
   \<and> cmd_compare py_int (wdoc [])
        (wdoc [wfootnote_ref ''3'', wfootnote_ref ''3'', wfootnote_ref ''4'']) =
       Inr \<lparr> r_tables = (0, 0), r_paragraphs = (0, 3), r_commands = (0, 0), r_matched = 0,
             r_instances = [], r_row_issues_count = 0,
             r_issues = [FootnoteDuplicate ''3'' 2] \<rparr>"
proof (intro conjI allI impI)
  fix to_int tpl_path out_path rep out_root fid
  assume c: "cmd_compare to_int tpl_path out_path = Inr rep"
    and d: "document_xml out_path = Parsed out_root"
  from c obtain out_root' where
    "document_xml out_path = Parsed out_root'"
    "filter (duplicate_of fid) (r_issues rep) =
       filter (duplicate_of fid) (footnote_consistency out_root' out_path)"
    by (rule issues_of_section[where P = "duplicate_of fid" and k = 3])
       (auto elim: duplicate_of.elims)
  with d have "filter (duplicate_of fid) (r_issues rep) =
       filter (duplicate_of fid) (footnote_consistency out_root out_path)"
    by simp
  then show "filter (duplicate_of fid) (r_issues rep) =
        (if count_list (footnote_refs out_root) fid > 1
         then [FootnoteDuplicate fid (count_list (footnote_refs out_root) fid)] else [])"
    by (simp only: footnote_consistency_duplicates)
next
  show "cmd_compare py_int (wdoc [])
        (wdoc [wfootnote_ref ''3'', wfootnote_ref ''3'', wfootnote_ref ''4'']) =
       Inr \<lparr> r_tables = (0, 0), r_paragraphs = (0, 3), r_commands = (0, 0), r_matched = 0,
             r_instances = [], r_row_issues_count = 0,
             r_issues = [FootnoteDuplicate ''3'' 2] \<rparr>"
    by code_simp
qed

theorem duplicate_references_witness:
  "cmd_compare py_int (wdoc [])
     (wdoc [wfootnote_ref ''7'', wfootnote_ref ''8'', wfootnote_ref ''7'', wfootnote_ref ''7'']) =
     Inr \<lparr> r_tables = (0, 0), r_paragraphs = (0, 4), r_commands = (0, 0), r_matched = 0,
           r_instances = [], r_row_issues_count = 0,
           r_issues = [FootnoteDuplicate ''7'' 3] \<rparr>
   \<and> document_xml (wdoc [wfootnote_ref ''7'', wfootnote_ref ''8'', wfootnote_ref ''7'',
                          wfootnote_ref ''7'']) =
       Parsed (wroot [wfootnote_ref ''7'', wfootnote_ref ''8'',
                      wfootnote_ref ''7'', wfootnote_ref ''7''])
   \<and> count_list (footnote_refs (wroot [wfootnote_ref ''7'',
        wfootnote_ref ''8'', wfootnote_ref ''7'', wfootnote_ref ''7''])) ''7'' = 3
   \<and> filter (duplicate_of ''7'') [FootnoteDuplicate ''7'' 3] = [FootnoteDuplicate ''7'' 3]"
proof -
  let ?body = "[wfootnote_ref ''7'', wfootnote_ref ''8'', wfootnote_ref ''7'', wfootnote_ref ''7'']"
  have e: "cmd_compare py_int (wdoc []) (wdoc ?body) =
     Inr \<lparr> r_tables = (0, 0), r_paragraphs = (0, 4), r_commands = (0, 0), r_matched = 0,
           r_instances = [], r_row_issues_count = 0,
           r_issues = [FootnoteDuplicate ''7'' 3] \<rparr>"
    by code_simp
  have d: "document_xml (wdoc ?body) = Parsed (wroot ?body)"
    by (simp add: wdoc_def)
  have n: "count_list (footnote_refs (wroot ?body)) ''7'' = 3"
    by code_simp
  from duplicate_references e d
  have "filter (duplicate_of ''7'')
          (r_issues \<lparr> r_tables = (0, 0), r_paragraphs = (0, 4), r_commands = (0, 0), r_matched = 0,
           r_instances = [], r_row_issues_count = 0,
           r_issues = [FootnoteDuplicate ''7'' 3] \<rparr>) =
        (if count_list (footnote_refs (wroot ?body)) ''7'' > 1
         then [FootnoteDuplicate ''7'' (count_list (footnote_refs (wroot ?body)) ''7'')]
         else [])"
    by blast
  then show ?thesis using e d n by simp
qed

text \<open>
  C10. The loop-expansion check never reports that the grid of a group member differs:
  the key of a group is \<open>str(tuple(grid))\<close>, which determines the grid, so every member of
  a group has the grid of the group's first member.
\<close>

theorem no_grid_differs:
  "(\<forall>to_int tpl_path out_path rep.
      cmd_compare to_int tpl_path out_path = Inr rep \<longrightarrow>
      filter is_family_grid_differs (r_issues rep) = [])
   \<and> (\<forall>out_tables k l i.
        (k, l) \<in> set (grid_groups out_tables) \<longrightarrow> i \<in> set l \<longrightarrow>
        str_tuple (table_grid (out_tables ! i)) = k
        \<and> table_grid (out_tables ! i) = table_grid (out_tables ! hd l))
   \<and> (\<forall>xs ys. str_tuple xs = str_tuple ys \<longrightarrow> xs = ys)"
proof (intro conjI allI impI)
  fix to_int tpl_path out_path rep
  assume c: "cmd_compare to_int tpl_path out_path = Inr rep"
  then obtain tpl_root out_root where d: "document_xml out_path = Parsed out_root"
    by (rule cmd_compare_Inr)
  from c d obtain issues5 where
    "for_loop_expansion to_int (el_iter (wtag ''tbl'') out_root) = Inr (issues5, r_instances rep)"
    "filter is_family_grid_differs (r_issues rep) = filter is_family_grid_differs issues5"
    by (rule cmd_compare_section5[where P = is_family_grid_differs])
       (auto elim: is_family_grid_differs.elims)
  then show "filter is_family_grid_differs (r_issues rep) = []"
    by (simp add: for_loop_expansion_no_grid_differs)
next
  fix out_tables :: "xml list" and k l i
  assume g: "(k, l) \<in> set (grid_groups out_tables)" and i: "i \<in> set l"
  have "l = filter (\<lambda>i. str_tuple (table_grid (out_tables ! i)) = k) [0..<length out_tables]"
    using grid_groups_member[OF g] by blast
  then have "i \<in> set (filter (\<lambda>i. str_tuple (table_grid (out_tables ! i)) = k)
                         [0..<length out_tables])"
    using i by simp
  then show "str_tuple (table_grid (out_tables ! i)) = k" by simp
next
  fix out_tables :: "xml list" and k l i
  assume "(k, l) \<in> set (grid_groups out_tables)" "i \<in> set l"
  then show "table_grid (out_tables ! i) = table_grid (out_tables ! hd l)"
    by (rule grid_groups_same_grid)
next
  fix xs ys assume "str_tuple xs = str_tuple ys"
  then show "xs = ys" by (simp add: str_tuple_inj)
qed

theorem no_grid_differs_witness:
  "cmd_compare py_int (wdoc []) (wdoc family_out) =
     Inr \<lparr> r_tables = (0, 3), r_paragraphs = (0, 6), r_commands = (0, 0), r_matched = 0,
           r_instances = [(3, str_tuple [''100'', ''200''], ''A | B'')],
           r_row_issues_count = 0,
           r_issues = [FamilyCellCount 2 0 1 0 2] \<rparr>
   \<and> filter is_family_grid_differs [FamilyCellCount 2 0 1 0 2] = []
   \<and> grid_groups (el_iter (wtag ''tbl'') (wroot family_out))
       = [(str_tuple [''100'', ''200''], [0, 1, 2])]
   \<and> table_grid (el_iter (wtag ''tbl'') (wroot family_out) ! 2)
       = table_grid (el_iter (wtag ''tbl'') (wroot family_out) ! 0)"
proof -
  let ?rep = "\<lparr> r_tables = (0, 3), r_paragraphs = (0, 6), r_commands = (0, 0), r_matched = 0,
           r_instances = [(3, str_tuple [''100'', ''200''], ''A | B'')],
           r_row_issues_count = 0,
           r_issues = [FamilyCellCount 2 0 1 0 2] \<rparr>"
  let ?T = "el_iter (wtag ''tbl'') (wroot family_out)"
  have a: "filter is_family_grid_differs (r_issues ?rep) = []"
    using no_grid_differs[THEN conjunct1, rule_format, OF family_out_report] .
  have m: "(str_tuple [''100'', ''200''], [0, 1, 2]) \<in> set (grid_groups ?T)"
    unfolding family_out_groups by simp
  have b: "table_grid (?T ! 2) = table_grid (?T ! hd [0, 1, 2])"
    using no_grid_differs[THEN conjunct2, THEN conjunct1, rule_format, OF m, of 2] by simp
  show ?thesis using family_out_report family_out_groups a b by simp
qed

end
